theory Spec2Isabelle
  imports Main "HOL-Library.AList" "HOL-Library.Sublist" "HOL-Library.Multiset"
begin

section \<open>Data model of \<open>electron/ipc-handlers.ts\<close>\<close>

text \<open>
  The handlers keep their whole state in files below the home directory. A JSON object
  with string keys (\<open>Record<string, T>\<close>) is an association list in insertion order:
  \<open>obj[k]\<close> is \<open>map_of obj k\<close>, \<open>obj[k] = v\<close> is \<open>AList.update k v obj\<close> (in place
  when the key exists, appended otherwise) and \<open>delete obj[k]\<close> is \<open>AList.delete k obj\<close>.
  The names of \<open>Object.prototype\<close> members and integer-like keys (which JavaScript
  enumerates first) are outside this model.
\<close>

datatype transport = Stdio | Sse | Http

record MCPConfig =
  command :: "string option"
  args :: "string list option"
  env :: "(string \<times> string) list option"
  url :: "string option"
  mcp_type :: "transport option"

datatype source = User | Local | McpJson | Disabled

record metadata =
  disabledAt :: string
  reason :: string

record DisabledMCPEntry =
  config :: MCPConfig
  source :: source
  projectPath :: "string option"
  metadata :: metadata

record project =
  project_mcpServers :: "(string \<times> MCPConfig) list option"
  project_other :: "(string \<times> string) list"

text \<open>
  \<open>readJsonFile<T>\<close> casts the parsed text to \<open>T\<close> without a check, so the interfaces
  \<open>ClaudeJsonFile\<close>, \<open>MCPJsonFile\<close>, \<open>MCPDisabledFile\<close> and the backup sidecar are one
  runtime shape: a JSON object in which each of the fields the program reads may be
  missing. \<open>other\<close> holds the remaining keys (\<open>[key: string]: unknown\<close>) as raw text.
\<close>

record JsonObject =
  mcpServers :: "(string \<times> MCPConfig) list option"
  projects :: "(string \<times> project) list option"
  version :: "nat option"
  disabled :: "(string \<times> DisabledMCPEntry) list option"
  originalPath :: "string option"
  timestamp :: "string option"
  description :: "string option"
  other :: "(string \<times> string) list"

definition emptyObject :: JsonObject where
  "emptyObject = \<lparr>mcpServers = None, projects = None, version = None, disabled = None,
     originalPath = None, timestamp = None, description = None, other = []\<rparr>"

text \<open>
  The text of a file is kept up to JSON formatting: either it parses to an object, or
  \<open>JSON.parse\<close> throws on it.
\<close>

datatype content = Json JsonObject | Malformed string

record fsfile =
  content :: content
  mtime :: nat

type_synonym path = string
type_synonym fsmap = "(path \<times> fsfile) list"

text \<open>
  What the environment supplies during one call. \<open>millis\<close> is \<open>Date.now()\<close> and \<open>iso\<close> is
  \<open>new Date().toISOString()\<close>. \<open>fs_mtime\<close> is the modification time that the file system
  gives to a file written or copied during the call, as \<open>statSync(...).mtime.getTime()\<close>
  reads it back. The program never sets a modification time: the file system chooses
  it, so nothing relates \<open>fs_mtime\<close> to the other two fields, and two calls at different
  \<open>Date\<close> readings can get the same \<open>fs_mtime\<close>.
\<close>

record clock_reading =
  millis :: nat
  iso :: string
  fs_mtime :: nat

subsection \<open>Paths\<close>

text \<open>\<open>os.homedir()\<close> is written \<open>~\<close>; \<open>path.join\<close> is only used on plain names.\<close>

definition path_join :: "path \<Rightarrow> string \<Rightarrow> path" where
  "path_join dir name = dir @ ''/'' @ name"

definition basename :: "path \<Rightarrow> string" where
  "basename p = rev (takeWhile (\<lambda>c. c \<noteq> CHR ''/'') (rev p))"

definition CLAUDE_DIR :: path where "CLAUDE_DIR = ''~/.claude''"
definition CLAUDE_JSON_PATH :: path where "CLAUDE_JSON_PATH = ''~/.claude.json''"
definition MCP_JSON_PATH :: path where "MCP_JSON_PATH = path_join CLAUDE_DIR ''mcp.json''"
definition AGENTS_DIR :: path where "AGENTS_DIR = path_join CLAUDE_DIR ''agents''"
definition CONFIG_MANAGER_DIR :: path where
  "CONFIG_MANAGER_DIR = path_join CLAUDE_DIR ''.config-manager''"
definition MCP_DISABLED_PATH :: path where
  "MCP_DISABLED_PATH = path_join CONFIG_MANAGER_DIR ''mcp-disabled.json''"
definition AGENTS_DISABLED_DIR :: path where
  "AGENTS_DISABLED_DIR = path_join CONFIG_MANAGER_DIR ''agents-disabled''"
definition BACKUPS_DIR :: path where
  "BACKUPS_DIR = path_join CONFIG_MANAGER_DIR ''backups''"

subsection \<open>The file system and its trace\<close>

text \<open>
  The file system is a flat association list from paths to files, in creation order;
  directories are implicit, so \<open>ensureDirectories\<close> changes nothing here. Every call
  that changes a file appends the event and the resulting file system to the trace:
  the states of the trace are exactly the states in which the process can be stopped.
  A primitive whose source path is missing changes nothing; where the program can
  reach that case (\<open>restoreBackup\<close>), the operation tests for it and returns the thrown
  error. I/O failures such as a full disk are not modelled.
\<close>

datatype event =
  WriteFile path | Rename path path | CopyFile path path | Unlink path | RemoveTree path

record world =
  fs :: fsmap
  trace :: "(event \<times> fsmap) list"

definition start :: "fsmap \<Rightarrow> world" where
  "start m = \<lparr>fs = m, trace = []\<rparr>"

definition emit :: "event \<Rightarrow> fsmap \<Rightarrow> world \<Rightarrow> world" where
  "emit e m w = \<lparr>fs = m, trace = trace w @ [(e, m)]\<rparr>"

definition existsSync :: "fsmap \<Rightarrow> path \<Rightarrow> bool" where
  "existsSync m p = (map_of m p \<noteq> None)"

definition writeFileSync :: "clock_reading \<Rightarrow> path \<Rightarrow> content \<Rightarrow> world \<Rightarrow> world" where
  "writeFileSync now p c w =
     emit (WriteFile p) (AList.update p \<lparr>content = c, mtime = fs_mtime now\<rparr> (fs w)) w"

definition copyFileSync :: "clock_reading \<Rightarrow> path \<Rightarrow> path \<Rightarrow> world \<Rightarrow> world" where
  "copyFileSync now src dst w =
     (case map_of (fs w) src of
        None \<Rightarrow> w
      | Some f \<Rightarrow>
          emit (CopyFile src dst)
            (AList.update dst \<lparr>content = content f, mtime = fs_mtime now\<rparr> (fs w)) w)"

definition renameSync :: "path \<Rightarrow> path \<Rightarrow> world \<Rightarrow> world" where
  "renameSync src dst w =
     (case map_of (fs w) src of
        None \<Rightarrow> w
      | Some f \<Rightarrow> emit (Rename src dst) (AList.update dst f (AList.delete src (fs w))) w)"

definition unlinkSync :: "path \<Rightarrow> world \<Rightarrow> world" where
  "unlinkSync p w = emit (Unlink p) (AList.delete p (fs w)) w"



text \<open>\<open>readdirSync\<close>: the names of the files directly inside a directory.\<close>

definition readdirSync :: "fsmap \<Rightarrow> path \<Rightarrow> string list" where
  "readdirSync m dir =
     map (\<lambda>p. drop (Suc (length dir)) p)
       (filter (\<lambda>p. prefix (dir @ ''/'') p \<and> CHR ''/'' \<notin> set (drop (Suc (length dir)) p))
          (map fst m))"

definition stat_mtime :: "fsmap \<Rightarrow> path \<Rightarrow> nat" where
  "stat_mtime m p = (case map_of m p of None \<Rightarrow> 0 | Some f \<Rightarrow> mtime f)"

subsection \<open>Reading and writing JSON\<close>

datatype exn = SyntaxError | TypeError | ENOENT | EISDIR

definition JSON_parse :: "content \<Rightarrow> exn + JsonObject" where
  "JSON_parse c = (case c of Json j \<Rightarrow> Inr j | Malformed s \<Rightarrow> Inl SyntaxError)"

text \<open>
  \<open>readJsonFile\<close>: the body is inside \<open>try\<close>, and the \<open>catch\<close> returns the default.
\<close>

definition readJsonFile :: "fsmap \<Rightarrow> path \<Rightarrow> JsonObject \<Rightarrow> JsonObject" where
  "readJsonFile m filePath defaultValue =
     (if \<not> existsSync m filePath then defaultValue
      else case map_of m filePath of
             None \<Rightarrow> defaultValue
           | Some f \<Rightarrow> (case JSON_parse (content f) of
                          Inl e \<Rightarrow> defaultValue
                        | Inr j \<Rightarrow> j))"

text \<open>
  \<open>writeJsonFileAtomic\<close>: \<open>JSON.stringify\<close> of an object read from JSON always parses
  again, so the validation never throws here; then the sibling \<open>.tmp\<close> file is written
  and renamed over the target.
\<close>

definition writeJsonFileAtomic :: "clock_reading \<Rightarrow> path \<Rightarrow> JsonObject \<Rightarrow> world \<Rightarrow> world" where
  "writeJsonFileAtomic now filePath data w =
     (let tmpPath = filePath @ ''.tmp'';
          w1 = writeFileSync now tmpPath (Json data) w
      in renameSync tmpPath filePath w1)"

subsection \<open>Backups\<close>

definition MAX_BACKUPS :: nat where
  "MAX_BACKUPS = 10"

text \<open>
  \<open>Array.prototype.sort\<close> with a comparator, as a stable insertion sort (it agrees with
  the engine's sort whenever the comparator is a consistent ordering).
\<close>

fun insert_by :: "('a \<Rightarrow> 'a \<Rightarrow> int) \<Rightarrow> 'a \<Rightarrow> 'a list \<Rightarrow> 'a list" where
  "insert_by c x [] = [x]"
| "insert_by c x (y # ys) = (if c x y < 0 then x # y # ys else y # insert_by c x ys)"

definition sort_by :: "('a \<Rightarrow> 'a \<Rightarrow> int) \<Rightarrow> 'a list \<Rightarrow> 'a list" where
  "sort_by c xs = fold (insert_by c) xs []"

definition unlink_backup :: "string \<Rightarrow> world \<Rightarrow> world" where
  "unlink_backup f w =
     (let p = path_join BACKUPS_DIR f;
          w1 = unlinkSync p w;
          metaPath = p @ ''.meta.json''
      in if existsSync (fs w1) metaPath then unlinkSync metaPath w1 else w1)"

definition is_backup_of :: "string \<Rightarrow> string \<Rightarrow> bool" where
  "is_backup_of baseFileName f \<longleftrightarrow>
     prefix (baseFileName @ ''.'') f \<and> \<not> suffix ''.meta.json'' f"

definition cleanupOldBackups :: "string \<Rightarrow> world \<Rightarrow> world" where
  "cleanupOldBackups baseFileName w =
     (let files = readdirSync (fs w) BACKUPS_DIR;
          backupFiles =
            sort_by (\<lambda>a b. int (stat_mtime (fs w) (path_join BACKUPS_DIR b))
                          - int (stat_mtime (fs w) (path_join BACKUPS_DIR a)))
              (filter (is_backup_of baseFileName) files)
      in if length backupFiles > MAX_BACKUPS
         then fold unlink_backup (drop MAX_BACKUPS backupFiles) w
         else w)"

definition stamp :: "clock_reading \<Rightarrow> string" where
  "stamp now = map (\<lambda>c. if c = CHR '':'' \<or> c = CHR ''.'' then CHR ''-'' else c) (iso now)"

definition backup_description :: "string option \<Rightarrow> string" where
  "backup_description d =
     (case d of None \<Rightarrow> ''Auto-backup before operation''
      | Some s \<Rightarrow> if s = [] then ''Auto-backup before operation'' else s)"

definition createBackup ::
  "clock_reading \<Rightarrow> path \<Rightarrow> string option \<Rightarrow> world \<Rightarrow> path option \<times> world" where
  "createBackup now filePath d w =
     (if \<not> existsSync (fs w) filePath then (None, w)
      else
        let fileName = basename filePath;
            backupPath = path_join BACKUPS_DIR (fileName @ ''.'' @ stamp now);
            w1 = copyFileSync now filePath backupPath w;
            metaPath = backupPath @ ''.meta.json'';
            w2 = writeFileSync now metaPath
                   (Json (emptyObject\<lparr>originalPath := Some filePath,
                            timestamp := Some (iso now),
                            description := Some (backup_description d)\<rparr>)) w1;
            w3 = cleanupOldBackups fileName w2
        in (Some backupPath, w3))"

section \<open>The archive registry for MCP servers\<close>

text \<open>
  The handlers return \<open>{success, error?, requiresRestart?}\<close>. The error text is kept as
  a value: one constructor for each message template of the source, and \<open>Thrown\<close> for
  an exception that the \<open>catch\<close> of the operation turns into a failure.
\<close>

datatype error =
    NotFound string source
  | InvalidSource
  | DisabledNotFound string
  | AlreadyExists string source
  | InvalidEntrySource
  | MissingDisabledKey
  | InvalidDisableSource
  | InvalidDeleteSource
  | FailedToToggle string "error option"
  | BackupFileNotFound
  | BackupMetadataNotFound
  | AgentFileNotFound path
  | OnlyUserSkills
  | SkillFolderNotFound string
  | Thrown exn

record result =
  success :: bool
  error :: "error option"
  requiresRestart :: "bool option"

definition ok :: result where
  "ok = \<lparr>success = True, error = None, requiresRestart = None\<rparr>"

definition fail :: "error \<Rightarrow> result" where
  "fail e = \<lparr>success = False, error = Some e, requiresRestart = None\<rparr>"

text \<open>A string is truthy when it is present and not empty.\<close>

definition truthy :: "string option \<Rightarrow> bool" where
  "truthy s = (case s of None \<Rightarrow> False | Some x \<Rightarrow> x \<noteq> [])"

definition servers_of :: "JsonObject \<Rightarrow> (string \<times> MCPConfig) list" where
  "servers_of j = (case mcpServers j of None \<Rightarrow> [] | Some s \<Rightarrow> s)"

definition project_at :: "JsonObject \<Rightarrow> string \<Rightarrow> project option" where
  "project_at j p = (case projects j of None \<Rightarrow> None | Some ps \<Rightarrow> map_of ps p)"

definition project_servers :: "JsonObject \<Rightarrow> string \<Rightarrow> (string \<times> MCPConfig) list" where
  "project_servers j p =
     (case project_at j p of
        None \<Rightarrow> []
      | Some pr \<Rightarrow> (case project_mcpServers pr of None \<Rightarrow> [] | Some s \<Rightarrow> s))"

definition emptyProject :: project where
  "emptyProject = \<lparr>project_mcpServers = None, project_other = []\<rparr>"

text \<open>\<open>claudeJson.projects[projectPath].mcpServers = s\<close>, creating what is missing.\<close>

definition set_project_servers ::
  "string \<Rightarrow> (string \<times> MCPConfig) list \<Rightarrow> JsonObject \<Rightarrow> JsonObject" where
  "set_project_servers p s j =
     (let ps = (case projects j of None \<Rightarrow> [] | Some ps \<Rightarrow> ps);
          pr = (case map_of ps p of None \<Rightarrow> emptyProject | Some pr \<Rightarrow> pr)
      in j\<lparr>projects := Some (AList.update p (pr\<lparr>project_mcpServers := Some s\<rparr>) ps)\<rparr>)"

definition defaultDisabled :: JsonObject where
  "defaultDisabled = emptyObject\<lparr>version := Some 1, disabled := Some []\<rparr>"

definition defaultMcpJson :: JsonObject where
  "defaultMcpJson = emptyObject\<lparr>mcpServers := Some []\<rparr>"

definition archive_entry ::
  "clock_reading \<Rightarrow> MCPConfig \<Rightarrow> source \<Rightarrow> string option \<Rightarrow> DisabledMCPEntry" where
  "archive_entry now c s p =
     \<lparr>config = c, source = s, projectPath = p,
      metadata = \<lparr>disabledAt = iso now, reason = ''user''\<rparr>\<rparr>"

text \<open>
  The three branches of \<open>disableMcp\<close> share their tail: backup, archive write, source
  write. \<open>archive_then_remove\<close> is that tail; \<open>active'\<close> is the source object with
  the server already deleted.
\<close>

definition archive_then_remove ::
  "clock_reading \<Rightarrow> path \<Rightarrow> string \<Rightarrow> string \<Rightarrow> DisabledMCPEntry \<Rightarrow> JsonObject
     \<Rightarrow> world \<Rightarrow> result \<times> world" where
  "archive_then_remove now activePath descr key entry active' w =
     (let w1 = snd (createBackup now activePath (Some descr) w);
          disabledJson = readJsonFile (fs w1) MCP_DISABLED_PATH defaultDisabled
      in case disabled disabledJson of
           None \<Rightarrow> (fail (Thrown TypeError), w1)
         | Some d \<Rightarrow>
             let w2 = writeJsonFileAtomic now MCP_DISABLED_PATH
                        (disabledJson\<lparr>disabled := Some (AList.update key entry d)\<rparr>) w1;
                 w3 = writeJsonFileAtomic now activePath active' w2
             in (ok, w3))"

definition disableMcp ::
  "clock_reading \<Rightarrow> string \<Rightarrow> source \<Rightarrow> string option \<Rightarrow> world \<Rightarrow> result \<times> world" where
  "disableMcp now name src pp w =
     (if src = User then
        let claudeJson = readJsonFile (fs w) CLAUDE_JSON_PATH emptyObject
        in case map_of (servers_of claudeJson) name of
             None \<Rightarrow> (fail (NotFound name User), w)
           | Some c \<Rightarrow>
               archive_then_remove now CLAUDE_JSON_PATH (''Before disabling MCP: '' @ name)
                 (''user:'' @ name) (archive_entry now c User None)
                 (claudeJson\<lparr>mcpServers := Some (AList.delete name (servers_of claudeJson))\<rparr>) w
      else if src = Local \<and> truthy pp then
        let projectPath = the pp;
            claudeJson = readJsonFile (fs w) CLAUDE_JSON_PATH emptyObject
        in case map_of (project_servers claudeJson projectPath) name of
             None \<Rightarrow> (fail (NotFound name Local), w)
           | Some c \<Rightarrow>
               archive_then_remove now CLAUDE_JSON_PATH
                 (''Before disabling local MCP: '' @ name)
                 (''local:'' @ projectPath @ '':'' @ name)
                 (archive_entry now c Local (Some projectPath))
                 (set_project_servers projectPath
                    (AList.delete name (project_servers claudeJson projectPath)) claudeJson) w
      else if src = McpJson then
        let mcpJson = readJsonFile (fs w) MCP_JSON_PATH defaultMcpJson
        in case map_of (servers_of mcpJson) name of
             None \<Rightarrow> (fail (NotFound name McpJson), w)
           | Some c \<Rightarrow>
               archive_then_remove now MCP_JSON_PATH (''Before disabling MCP: '' @ name)
                 (''mcpjson:'' @ name) (archive_entry now c McpJson None)
                 (mcpJson\<lparr>mcpServers := Some (AList.delete name (servers_of mcpJson))\<rparr>) w
      else (fail InvalidSource, w))"

text \<open>\<open>s.replace(pat, rep)\<close> with a string pattern replaces the first occurrence.\<close>

fun replace_first :: "string \<Rightarrow> string \<Rightarrow> string \<Rightarrow> string" where
  "replace_first pat rep [] = (if pat = [] then rep else [])"
| "replace_first pat rep (c # cs) =
     (if prefix pat (c # cs) then rep @ drop (length pat) (c # cs)
      else c # replace_first pat rep cs)"

text \<open>The last element of \<open>s.split(':')\<close>.\<close>

definition last_segment :: "string \<Rightarrow> string" where
  "last_segment s = rev (takeWhile (\<lambda>c. c \<noteq> CHR '':'') (rev s))"

text \<open>
  The tail shared by the branches of \<open>enableMcp\<close>: backup, write of the destination
  with the server restored (\<open>active'\<close>), then removal from the archive.
\<close>

definition restore_then_unarchive ::
  "clock_reading \<Rightarrow> path \<Rightarrow> string \<Rightarrow> JsonObject \<Rightarrow> string \<Rightarrow> JsonObject
     \<Rightarrow> (string \<times> DisabledMCPEntry) list \<Rightarrow> world \<Rightarrow> result \<times> world" where
  "restore_then_unarchive now activePath descr active' disabledKey disabledJson d w =
     (let w1 = snd (createBackup now activePath (Some descr) w);
          w2 = writeJsonFileAtomic now activePath active' w1;
          w3 = writeJsonFileAtomic now MCP_DISABLED_PATH
                 (disabledJson\<lparr>disabled := Some (AList.delete disabledKey d)\<rparr>) w2
      in (ok, w3))"

definition enableMcp :: "clock_reading \<Rightarrow> string \<Rightarrow> world \<Rightarrow> result \<times> world" where
  "enableMcp now disabledKey w =
     (let disabledJson = readJsonFile (fs w) MCP_DISABLED_PATH defaultDisabled
      in case disabled disabledJson of
           None \<Rightarrow> (fail (Thrown TypeError), w)
         | Some d \<Rightarrow>
            (case map_of d disabledKey of
               None \<Rightarrow> (fail (DisabledNotFound disabledKey), w)
             | Some entry \<Rightarrow>
                if source entry = User then
                  let claudeJson = readJsonFile (fs w) CLAUDE_JSON_PATH emptyObject;
                      name = replace_first ''user:'' [] disabledKey
                  in if map_of (servers_of claudeJson) name \<noteq> None
                     then (fail (AlreadyExists name User), w)
                     else restore_then_unarchive now CLAUDE_JSON_PATH
                            (''Before enabling MCP: '' @ name)
                            (claudeJson\<lparr>mcpServers :=
                               Some (AList.update name (config entry) (servers_of claudeJson))\<rparr>)
                            disabledKey disabledJson d w
                else if source entry = Local \<and> truthy (projectPath entry) then
                  let pp = the (projectPath entry);
                      claudeJson = readJsonFile (fs w) CLAUDE_JSON_PATH emptyObject;
                      name = last_segment disabledKey
                  in if map_of (project_servers claudeJson pp) name \<noteq> None
                     then (fail (AlreadyExists name Local), w)
                     else restore_then_unarchive now CLAUDE_JSON_PATH
                            (''Before enabling local MCP: '' @ name)
                            (set_project_servers pp
                               (AList.update name (config entry) (project_servers claudeJson pp))
                               claudeJson)
                            disabledKey disabledJson d w
                else if source entry = McpJson then
                  let mcpJson = readJsonFile (fs w) MCP_JSON_PATH defaultMcpJson;
                      name = replace_first ''mcpjson:'' [] disabledKey
                  in (case mcpServers mcpJson of
                        None \<Rightarrow> (fail (Thrown TypeError), w)
                      | Some s \<Rightarrow>
                          if map_of s name \<noteq> None
                          then (fail (AlreadyExists name McpJson), w)
                          else restore_then_unarchive now MCP_JSON_PATH
                                 (''Before enabling MCP: '' @ name)
                                 (mcpJson\<lparr>mcpServers := Some (AList.update name (config entry) s)\<rparr>)
                                 disabledKey disabledJson d w)
                else (fail InvalidEntrySource, w)))"

definition toggleMcp ::
  "clock_reading \<Rightarrow> string \<Rightarrow> bool \<Rightarrow> source option \<Rightarrow> string option \<Rightarrow> string option
     \<Rightarrow> world \<Rightarrow> result \<times> world" where
  "toggleMcp now name enabled src pp disabledKey w =
     (if enabled then
        (if \<not> truthy disabledKey then (fail MissingDisabledKey, w)
         else let (r, w') = enableMcp now (the disabledKey) w
              in (r\<lparr>requiresRestart := Some (success r)\<rparr>, w'))
      else
        (case src of
           None \<Rightarrow> (fail InvalidDisableSource, w)
         | Some s \<Rightarrow>
             if s = Disabled then (fail InvalidDisableSource, w)
             else let (r, w') = disableMcp now name s pp w
                  in (r\<lparr>requiresRestart := Some (success r)\<rparr>, w')))"


subsection \<open>The merged view\<close>

text \<open>
  \<open>MCPServer\<close> without \<open>status\<close> and \<open>toolInfo\<close>: \<open>getMcpStatuses\<close> returns an empty map,
  so the status is always \<open>unknown\<close>, and the tool information is a function of the name
  alone. \<open>mcpMap\<close> is a JavaScript \<open>Map\<close>, which keeps insertion order: an association
  list again. \<open>localeCompare\<close> depends on the locale of the process and is a parameter.
\<close>

record MCPServer =
  name :: string
  server_config :: MCPConfig
  enabled :: bool
  server_source :: source
  server_projectPath :: "string option"
  disabledKey :: "string option"
  server_metadata :: "metadata option"

definition source_string :: "source \<Rightarrow> string" where
  "source_string s =
     (case s of User \<Rightarrow> ''user'' | Local \<Rightarrow> ''local'' | McpJson \<Rightarrow> ''mcp.json''
      | Disabled \<Rightarrow> ''disabled'')"

definition template_string :: "string option \<Rightarrow> string" where
  "template_string s = (case s of None \<Rightarrow> ''undefined'' | Some x \<Rightarrow> x)"

definition active_server :: "string \<Rightarrow> MCPConfig \<Rightarrow> source \<Rightarrow> string option \<Rightarrow> MCPServer" where
  "active_server n c s p =
     \<lparr>name = n, server_config = c, enabled = True, server_source = s,
      server_projectPath = p, disabledKey = None, server_metadata = None\<rparr>"

definition add_user :: "string \<times> MCPConfig \<Rightarrow> (string \<times> MCPServer) list \<Rightarrow> (string \<times> MCPServer) list" where
  "add_user e m = AList.update (''user:'' @ fst e) (active_server (fst e) (snd e) User None) m"

definition add_local ::
  "string \<Rightarrow> string \<times> MCPConfig \<Rightarrow> (string \<times> MCPServer) list \<Rightarrow> (string \<times> MCPServer) list" where
  "add_local ppath e m =
     AList.update (''local:'' @ ppath @ '':'' @ fst e)
       (active_server (fst e) (snd e) Local (Some ppath)) m"

definition add_project ::
  "string \<times> project \<Rightarrow> (string \<times> MCPServer) list \<Rightarrow> (string \<times> MCPServer) list" where
  "add_project pe m =
     (case project_mcpServers (snd pe) of
        None \<Rightarrow> m
      | Some s \<Rightarrow> fold (add_local (fst pe)) s m)"

definition add_mcpjson ::
  "string \<times> MCPConfig \<Rightarrow> (string \<times> MCPServer) list \<Rightarrow> (string \<times> MCPServer) list" where
  "add_mcpjson e m =
     (if map_of m (''user:'' @ fst e) = None
      then AList.update (''mcpjson:'' @ fst e) (active_server (fst e) (snd e) McpJson None) m
      else m)"

definition add_disabled ::
  "string \<times> DisabledMCPEntry \<Rightarrow> (string \<times> MCPServer) list \<Rightarrow> (string \<times> MCPServer) list" where
  "add_disabled de m =
     (let displayName = last_segment (fst de);
          entry = snd de;
          mapKey = (if source entry = Local
                    then ''disabled:local:'' @ template_string (projectPath entry) @ '':''
                           @ displayName
                    else ''disabled:'' @ source_string (source entry) @ '':'' @ displayName)
      in AList.update mapKey
           \<lparr>name = displayName, server_config = config entry, enabled = False,
            server_source = Disabled, server_projectPath = projectPath entry,
            disabledKey = Some (fst de), server_metadata = Some (metadata entry)\<rparr> m)"

text \<open>
  The comparator of the final sort. \<open>sourcePriority[a.source] || 99\<close> turns the priority
  \<open>0\<close> of \<open>user\<close> into \<open>99\<close>.
\<close>

definition sourcePriority :: "source \<Rightarrow> int" where
  "sourcePriority s = (case s of User \<Rightarrow> 99 | Local \<Rightarrow> 1 | McpJson \<Rightarrow> 2 | Disabled \<Rightarrow> 3)"

definition compareServers :: "(string \<Rightarrow> string \<Rightarrow> int) \<Rightarrow> MCPServer \<Rightarrow> MCPServer \<Rightarrow> int" where
  "compareServers localeCompare a b =
     (let nameCompare = localeCompare (name a) (name b)
      in if nameCompare \<noteq> 0 then nameCompare
         else sourcePriority (server_source a) - sourcePriority (server_source b))"

definition mcpMap :: "fsmap \<Rightarrow> (string \<times> MCPServer) list" where
  "mcpMap m =
     (let claudeJson = readJsonFile m CLAUDE_JSON_PATH emptyObject;
          mcpJson = readJsonFile m MCP_JSON_PATH defaultMcpJson;
          disabledJson = readJsonFile m MCP_DISABLED_PATH defaultDisabled;
          m1 = fold add_user (servers_of claudeJson) [];
          m2 = fold add_project (case projects claudeJson of None \<Rightarrow> [] | Some ps \<Rightarrow> ps) m1;
          m3 = fold add_mcpjson (servers_of mcpJson) m2
      in fold add_disabled (case disabled disabledJson of None \<Rightarrow> [] | Some d \<Rightarrow> d) m3)"

definition loadMCPs :: "(string \<Rightarrow> string \<Rightarrow> int) \<Rightarrow> world \<Rightarrow> MCPServer list \<times> world" where
  "loadMCPs localeCompare w =
     (sort_by (compareServers localeCompare) (map snd (mcpMap (fs w))), w)"

subsection \<open>Bulk toggle\<close>

text \<open>
  The \<open>for\<close> loop of \<open>toggleAllMcps\<close>; \<open>clock i\<close> is the clock reading during the
  \<open>i\<close>-th iteration. \<open>Object.keys\<close> of a missing \<open>disabled\<close> throws, which the \<open>catch\<close>
  of \<open>toggleAllMcps\<close> turns into a failure.
\<close>

definition allDone :: result where
  "allDone = \<lparr>success = True, error = None, requiresRestart = Some True\<rparr>"

fun toggle_loop ::
  "(nat \<Rightarrow> clock_reading) \<Rightarrow> bool \<Rightarrow> nat \<Rightarrow> MCPServer list \<Rightarrow> world \<Rightarrow> result \<times> world" where
  "toggle_loop clock en i [] w = (allDone, w)"
| "toggle_loop clock en i (mcp # rest) w =
     (if en \<and> server_source mcp = Disabled then
        (case disabled (readJsonFile (fs w) MCP_DISABLED_PATH defaultDisabled) of
           None \<Rightarrow> (fail (Thrown TypeError), w)
         | Some d \<Rightarrow>
            (case find (\<lambda>k. prefix ''user:'' k \<and> suffix ('':'' @ name mcp) k
                             \<or> k = ''user:'' @ name mcp) (map fst d) of
               None \<Rightarrow> toggle_loop clock en (Suc i) rest w
             | Some key \<Rightarrow>
                 (case enableMcp (clock i) key w of
                    (r, w') \<Rightarrow>
                      if \<not> success r then (fail (FailedToToggle (name mcp) (error r)), w')
                      else toggle_loop clock en (Suc i) rest w')))
      else if \<not> en \<and> server_source mcp = User then
        (case disableMcp (clock i) (name mcp) User None w of
           (r, w') \<Rightarrow>
             if \<not> success r then (fail (FailedToToggle (name mcp) (error r)), w')
             else toggle_loop clock en (Suc i) rest w')
      else toggle_loop clock en (Suc i) rest w)"

definition toggleAllMcps ::
  "(string \<Rightarrow> string \<Rightarrow> int) \<Rightarrow> (nat \<Rightarrow> clock_reading) \<Rightarrow> bool \<Rightarrow> world \<Rightarrow> result \<times> world" where
  "toggleAllMcps localeCompare clock en w =
     (case loadMCPs localeCompare w of
        (mcps, w0) \<Rightarrow>
          let userMcps = filter (\<lambda>mcp. en \<and> server_source mcp = Disabled
                                     \<or> \<not> en \<and> server_source mcp = User) mcps
          in if length userMcps = 0
             then (\<lparr>success = True, error = None, requiresRestart = Some False\<rparr>, w0)
             else toggle_loop clock en 0 userMcps w0)"

subsection \<open>Restoring a backup, moving an agent\<close>

definition restoreBackup :: "clock_reading \<Rightarrow> path \<Rightarrow> world \<Rightarrow> result \<times> world" where
  "restoreBackup now backupPath w =
     (let metaPath = backupPath @ ''.meta.json''
      in case map_of (fs w) backupPath of
           None \<Rightarrow> (fail BackupFileNotFound, w)
         | Some backup \<Rightarrow>
            (case map_of (fs w) metaPath of
               None \<Rightarrow> (fail BackupMetadataNotFound, w)
             | Some metaFile \<Rightarrow>
                (case JSON_parse (content metaFile) of
                   Inl e \<Rightarrow> (fail (Thrown e), w)
                 | Inr meta \<Rightarrow>
                    (case JSON_parse (content backup) of
                       Inl e \<Rightarrow> (fail (Thrown e), w)
                     | Inr parsed \<Rightarrow>
                        (case originalPath meta of
                           None \<Rightarrow> (fail (Thrown TypeError), w)
                         | Some orig \<Rightarrow>
                             let w1 = snd (createBackup now orig
                                        (Some (''Before restoring backup from ''
                                                 @ template_string (timestamp meta))) w)
                             in if \<not> existsSync (fs w1) backupPath
                                then (fail (Thrown ENOENT), w1)
                                else (ok, copyFileSync now backupPath orig w1))))))"


subsection \<open>Deleting an agent or a skill\<close>





section \<open>Observations used in the statements\<close>

text \<open>
  The three configuration files, and what a file system state holds at their paths.
  Backups only touch paths below \<open>BACKUPS_DIR\<close>, which leaves this view unchanged.
\<close>

definition same_config :: "fsmap \<Rightarrow> fsmap \<Rightarrow> bool" where
  "same_config m m' \<longleftrightarrow> (\<forall>p. \<not> prefix (BACKUPS_DIR @ ''/'') p \<longrightarrow> map_of m' p = map_of m p)"

definition backup_steps :: "world \<Rightarrow> world \<Rightarrow> bool" where
  "backup_steps w w' \<longleftrightarrow>
     (\<exists>new. trace w' = trace w @ new \<and> (\<forall>x\<in>set new. same_config (fs w) (snd x))
        \<and> same_config (fs w) (fs w'))"

datatype cfgfile = ClaudeFile | McpFile | DisabledFile

definition path_of :: "cfgfile \<Rightarrow> path" where
  "path_of c = (case c of ClaudeFile \<Rightarrow> CLAUDE_JSON_PATH | McpFile \<Rightarrow> MCP_JSON_PATH
                | DisabledFile \<Rightarrow> MCP_DISABLED_PATH)"

definition view :: "fsmap \<Rightarrow> cfgfile \<Rightarrow> fsfile option" where
  "view m c = map_of m (path_of c)"

definition read_view :: "(cfgfile \<Rightarrow> fsfile option) \<Rightarrow> cfgfile \<Rightarrow> JsonObject \<Rightarrow> JsonObject" where
  "read_view v c d =
     (case v c of None \<Rightarrow> d
      | Some f \<Rightarrow> (case content f of Malformed s \<Rightarrow> d | Json j \<Rightarrow> j))"

definition written :: "clock_reading \<Rightarrow> JsonObject \<Rightarrow> fsfile" where
  "written now j = \<lparr>content = Json j, mtime = fs_mtime now\<rparr>"

text \<open>
  \<open>archived m key\<close> is the entry of the disabled archive under a key, \<open>live m src pp n\<close>
  the payload of the server named \<open>n\<close> in an active source (the top-level servers of
  \<open>~/.claude.json\<close>, the servers of one of its projects, or \<open>mcp.json\<close>).
  \<open>archive_key\<close> is the key under which \<open>disableMcp\<close> archives, \<open>restored_name\<close> the
  name under which \<open>enableMcp\<close> restores an entry, \<open>active_path\<close> the file of a source.
\<close>

definition archived :: "fsmap \<Rightarrow> string \<Rightarrow> DisabledMCPEntry option" where
  "archived m key =
     (case disabled (readJsonFile m MCP_DISABLED_PATH defaultDisabled) of
        None \<Rightarrow> None
      | Some d \<Rightarrow> map_of d key)"

definition live :: "fsmap \<Rightarrow> source \<Rightarrow> string option \<Rightarrow> string \<Rightarrow> MCPConfig option" where
  "live m src pp n =
     (case src of
        User \<Rightarrow> map_of (servers_of (readJsonFile m CLAUDE_JSON_PATH emptyObject)) n
      | Local \<Rightarrow>
          (if truthy pp
           then map_of (project_servers (readJsonFile m CLAUDE_JSON_PATH emptyObject) (the pp)) n
           else None)
      | McpJson \<Rightarrow> map_of (servers_of (readJsonFile m MCP_JSON_PATH defaultMcpJson)) n
      | Disabled \<Rightarrow> None)"

definition archive_key :: "source \<Rightarrow> string option \<Rightarrow> string \<Rightarrow> string" where
  "archive_key src pp n =
     (case src of
        User \<Rightarrow> ''user:'' @ n
      | Local \<Rightarrow> ''local:'' @ the pp @ '':'' @ n
      | McpJson \<Rightarrow> ''mcpjson:'' @ n
      | Disabled \<Rightarrow> [])"

definition active_path :: "source \<Rightarrow> path" where
  "active_path src = (case src of McpJson \<Rightarrow> MCP_JSON_PATH | _ \<Rightarrow> CLAUDE_JSON_PATH)"

definition restored_name :: "source \<Rightarrow> string \<Rightarrow> string" where
  "restored_name src key =
     (case src of
        User \<Rightarrow> replace_first ''user:'' [] key
      | Local \<Rightarrow> last_segment key
      | McpJson \<Rightarrow> replace_first ''mcpjson:'' [] key
      | Disabled \<Rightarrow> key)"

text \<open>
  \<open>archive_first\<close>: in every state of the run the server is live or archived, and a
  successful run ends with the archive renamed into place, then the temporary file of
  the source written, then the source renamed into place; the server is in both stores
  between the two renames. \<open>active_first\<close> is the mirror image for \<open>enableMcp\<close>.
\<close>

definition archive_first ::
  "source \<Rightarrow> string option \<Rightarrow> string \<Rightarrow> MCPConfig \<Rightarrow> string
     \<Rightarrow> DisabledMCPEntry \<Rightarrow> result \<times> world \<Rightarrow> bool" where
  "archive_first src pp n c key entry rw \<longleftrightarrow>
     (\<forall>x\<in>set (trace (snd rw)). live (snd x) src pp n = Some c \<or> archived (snd x) key = Some entry)
     \<and> (success (fst rw) \<longrightarrow>
          (\<exists>pre m1 m2 m3. trace (snd rw) = pre @
              [(Rename (MCP_DISABLED_PATH @ ''.tmp'') MCP_DISABLED_PATH, m1),
               (WriteFile (active_path src @ ''.tmp''), m2),
               (Rename (active_path src @ ''.tmp'') (active_path src), m3)]
            \<and> (\<forall>x\<in>set pre. live (snd x) src pp n = Some c)
            \<and> live m1 src pp n = Some c \<and> archived m1 key = Some entry
            \<and> live m2 src pp n = Some c \<and> archived m2 key = Some entry
            \<and> live m3 src pp n = None \<and> archived m3 key = Some entry))"

definition active_first ::
  "string \<Rightarrow> DisabledMCPEntry \<Rightarrow> result \<times> world \<Rightarrow> bool" where
  "active_first key e rw \<longleftrightarrow>
     (let src = source e; pp = projectPath e; n = restored_name src key; c = config e in
      (\<forall>x\<in>set (trace (snd rw)). archived (snd x) key = Some e \<or> live (snd x) src pp n = Some c)
      \<and> (success (fst rw) \<longrightarrow>
          (\<exists>pre m1 m2 m3. trace (snd rw) = pre @
              [(Rename (active_path src @ ''.tmp'') (active_path src), m1),
               (WriteFile (MCP_DISABLED_PATH @ ''.tmp''), m2),
               (Rename (MCP_DISABLED_PATH @ ''.tmp'') MCP_DISABLED_PATH, m3)]
            \<and> (\<forall>x\<in>set pre. archived (snd x) key = Some e)
            \<and> archived m1 key = Some e \<and> live m1 src pp n = Some c
            \<and> archived m2 key = Some e \<and> live m2 src pp n = Some c
            \<and> archived m3 key = None \<and> live m3 src pp n = Some c)))"

text \<open>
  The effect of a successful \<open>disableMcp\<close> and of a successful \<open>enableMcp\<close> on the three
  configuration files. \<open>restorable\<close> holds when \<open>enableMcp\<close> has a branch for the entry.
\<close>

definition cfg_of :: "source \<Rightarrow> cfgfile" where
  "cfg_of src = (case src of McpJson \<Rightarrow> McpFile | _ \<Rightarrow> ClaudeFile)"

definition default_of :: "cfgfile \<Rightarrow> JsonObject" where
  "default_of c = (case c of ClaudeFile \<Rightarrow> emptyObject | McpFile \<Rightarrow> defaultMcpJson
                   | DisabledFile \<Rightarrow> defaultDisabled)"

definition with_servers ::
  "source \<Rightarrow> string option \<Rightarrow> (string \<times> MCPConfig) list \<Rightarrow> JsonObject \<Rightarrow> JsonObject" where
  "with_servers src pp s j =
     (if src = Local then set_project_servers (the pp) s j else j\<lparr>mcpServers := Some s\<rparr>)"

definition servers_at :: "source \<Rightarrow> string option \<Rightarrow> JsonObject \<Rightarrow> (string \<times> MCPConfig) list" where
  "servers_at src pp j = (if src = Local then project_servers j (the pp) else servers_of j)"

definition after_disable ::
  "clock_reading \<Rightarrow> source \<Rightarrow> string option \<Rightarrow> string \<Rightarrow> MCPConfig
     \<Rightarrow> (cfgfile \<Rightarrow> fsfile option) \<Rightarrow> (cfgfile \<Rightarrow> fsfile option)" where
  "after_disable now src pp n c v =
     (let dj = read_view v DisabledFile defaultDisabled;
          aj = read_view v (cfg_of src) (default_of (cfg_of src))
      in v(DisabledFile \<mapsto> written now (dj\<lparr>disabled := Some
              (AList.update (archive_key src pp n)
                 (archive_entry now c src (if src = Local then pp else None))
                 (the (disabled dj)))\<rparr>),
           cfg_of src \<mapsto> written now
              (with_servers src pp (AList.delete n (servers_at src pp aj)) aj)))"

definition after_enable ::
  "clock_reading \<Rightarrow> string \<Rightarrow> DisabledMCPEntry
     \<Rightarrow> (cfgfile \<Rightarrow> fsfile option) \<Rightarrow> (cfgfile \<Rightarrow> fsfile option)" where
  "after_enable now key e v =
     (let src = source e; pp = projectPath e;
          dj = read_view v DisabledFile defaultDisabled;
          aj = read_view v (cfg_of src) (default_of (cfg_of src))
      in v(cfg_of src \<mapsto> written now
              (with_servers src pp
                 (AList.update (restored_name src key) (config e) (servers_at src pp aj)) aj),
           DisabledFile \<mapsto> written now
              (dj\<lparr>disabled := Some (AList.delete key (the (disabled dj)))\<rparr>)))"

definition restorable :: "fsmap \<Rightarrow> DisabledMCPEntry \<Rightarrow> bool" where
  "restorable m e =
     (case source e of
        User \<Rightarrow> True
      | Local \<Rightarrow> truthy (projectPath e)
      | McpJson \<Rightarrow> mcpServers (readJsonFile m MCP_JSON_PATH defaultMcpJson) \<noteq> None
      | Disabled \<Rightarrow> False)"

text \<open>
  The invariant of \<open>mcpMap\<close>: its keys are distinct, and the key of an entry is
  determined by the entry's source (and, for the two unscoped sources, its name).
\<close>

definition key_ok :: "string \<Rightarrow> MCPServer \<Rightarrow> bool" where
  "key_ok k v \<longleftrightarrow>
     (case server_source v of
        User \<Rightarrow> k = ''user:'' @ name v
      | McpJson \<Rightarrow> k = ''mcpjson:'' @ name v
      | Local \<Rightarrow> prefix ''local:'' k
      | Disabled \<Rightarrow> prefix ''disabled:'' k)"

definition map_inv :: "(string \<times> MCPServer) list \<Rightarrow> bool" where
  "map_inv M \<longleftrightarrow> distinct (map fst M) \<and> (\<forall>k v. map_of M k = Some v \<longrightarrow> key_ok k v)"

text \<open>
  \<open>snapshot_first now p m0 w'\<close>: when the file \<open>p\<close> exists in \<open>m0\<close>, a run from \<open>m0\<close> to
  \<open>w'\<close> either emits no event, or its first event copies \<open>p\<close> to its backup path, with
  the content that \<open>p\<close> had in \<open>m0\<close>, and leaves every path outside the backups directory
  as it was. \<open>delete_target\<close> is the file that \<open>deleteMcp\<close> rewrites.
\<close>

definition backup_path :: "clock_reading \<Rightarrow> path \<Rightarrow> path" where
  "backup_path now p = path_join BACKUPS_DIR (basename p @ ''.'' @ stamp now)"



text \<open>The items that \<open>toggleAllMcps\<close> selects from the merged view.\<close>

definition eligible :: "bool \<Rightarrow> MCPServer \<Rightarrow> bool" where
  "eligible en mcp \<longleftrightarrow> en \<and> server_source mcp = Disabled \<or> \<not> en \<and> server_source mcp = User"

text \<open>
  Retention. \<open>snapshots rs p d\<close> is a sequence of \<open>createBackup\<close> calls against the
  file \<open>p\<close>, one for each clock reading of \<open>rs\<close>, in that order. \<open>backup_name\<close> is the
  name that a call made at a reading gives its copy; \<open>backups_of\<close> and \<open>sidecars_of\<close>
  list, in directory order, the copies and the \<open>.meta.json\<close> files that the backups
  directory holds for a base file name (\<open>backups_of\<close> is the list that
  \<open>cleanupOldBackups\<close> sorts). \<open>iso_ok\<close> is the shape of \<open>toISOString()\<close>: 24
  characters, none of them a path separator. \<open>newest n\<close> keeps the last \<open>n\<close> elements.
  A call names its copy after \<open>iso\<close>, and the file system stamps the copy with
  \<open>fs_mtime\<close>, which is what \<open>cleanupOldBackups\<close> sorts by.
\<close>

definition backup_name :: "clock_reading \<Rightarrow> path \<Rightarrow> string" where
  "backup_name now p = basename p @ ''.'' @ stamp now"

definition snapshots :: "clock_reading list \<Rightarrow> path \<Rightarrow> string option \<Rightarrow> world \<Rightarrow> world" where
  "snapshots rs p d w = fold (\<lambda>now w. snd (createBackup now p d w)) rs w"

definition backups_of :: "fsmap \<Rightarrow> string \<Rightarrow> string list" where
  "backups_of m base = filter (is_backup_of base) (readdirSync m BACKUPS_DIR)"

definition sidecars_of :: "fsmap \<Rightarrow> string \<Rightarrow> string list" where
  "sidecars_of m base =
     filter (\<lambda>f. prefix (base @ ''.'') f \<and> suffix ''.meta.json'' f) (readdirSync m BACKUPS_DIR)"

definition iso_ok :: "clock_reading \<Rightarrow> bool" where
  "iso_ok r \<longleftrightarrow> length (iso r) = 24 \<and> CHR ''/'' \<notin> set (iso r)"

definition newest :: "nat \<Rightarrow> 'a list \<Rightarrow> 'a list" where
  "newest n xs = drop (length xs - n) xs"

text \<open>
  The invariant of a sequence of snapshots of the file \<open>p\<close> with content \<open>f\<close>: the
  file is unchanged, the names of the backups directory that start with the base name
  of \<open>p\<close> are the copy and the sidecar of each reading of \<open>K\<close>, in that order, and each
  copy holds the content of \<open>p\<close> with the modification time of its call. \<open>snapshot_files\<close> is the
  file system after the copy and the sidecar of one call have been written.
\<close>

definition blocks :: "clock_reading list \<Rightarrow> path \<Rightarrow> string list" where
  "blocks K p = concat (map (\<lambda>r. [backup_name r p, backup_name r p @ ''.meta.json'']) K)"

definition retained :: "path \<Rightarrow> fsfile \<Rightarrow> clock_reading list \<Rightarrow> fsmap \<Rightarrow> bool" where
  "retained p f K m \<longleftrightarrow>
     map_of m p = Some f
     \<and> filter (prefix (basename p @ ''.'')) (readdirSync m BACKUPS_DIR) = blocks K p
     \<and> (\<forall>r\<in>set K. map_of m (backup_path r p) = Some \<lparr>content = content f, mtime = fs_mtime r\<rparr>)"

definition sidecar :: "clock_reading \<Rightarrow> path \<Rightarrow> string option \<Rightarrow> fsfile" where
  "sidecar r p d =
     \<lparr>content = Json (emptyObject\<lparr>originalPath := Some p, timestamp := Some (iso r),
                        description := Some (backup_description d)\<rparr>), mtime = fs_mtime r\<rparr>"

definition snapshot_files :: "clock_reading \<Rightarrow> path \<Rightarrow> string option \<Rightarrow> fsfile \<Rightarrow> fsmap \<Rightarrow> fsmap" where
  "snapshot_files r p d f m =
     AList.update (backup_path r p @ ''.meta.json'') (sidecar r p d)
       (AList.update (backup_path r p) \<lparr>content = content f, mtime = fs_mtime r\<rparr> m)"






text \<open>
  The bulk toggle, item by item. \<open>key_for m n\<close> is the archive key that the loop of
  \<open>toggleAllMcps\<close> finds for an item named \<open>n\<close>: the first key that starts with \<open>user:\<close>
  and ends with \<open>:n\<close>. \<open>transition now en mcp w\<close> is the single-item call the loop makes
  for an eligible item: \<open>enableMcp\<close> of that key when enabling (nothing when there is no
  such key), \<open>disableMcp\<close> of the user-level server when disabling. \<open>carried\<close> runs the
  transitions of a list of items one after another, each on the world the previous one
  left, and gives the final world when none of them failed. \<open>has_registry\<close>: the archive
  file has its \<open>disabled\<close> object; \<open>all_active\<close>: no entry of a merged view comes from
  the archive.
\<close>

definition key_for :: "fsmap \<Rightarrow> string \<Rightarrow> string option" where
  "key_for m n =
     (case disabled (readJsonFile m MCP_DISABLED_PATH defaultDisabled) of
        None \<Rightarrow> None
      | Some d \<Rightarrow> find (\<lambda>k. prefix ''user:'' k \<and> suffix ('':'' @ n) k \<or> k = ''user:'' @ n)
                   (map fst d))"

definition transition ::
  "clock_reading \<Rightarrow> bool \<Rightarrow> MCPServer \<Rightarrow> world \<Rightarrow> (result \<times> world) option" where
  "transition now en mcp w =
     (if en then (case key_for (fs w) (name mcp) of
                    None \<Rightarrow> None
                  | Some key \<Rightarrow> Some (enableMcp now key w))
      else Some (disableMcp now (name mcp) User None w))"

fun carried ::
  "(nat \<Rightarrow> clock_reading) \<Rightarrow> bool \<Rightarrow> nat \<Rightarrow> MCPServer list \<Rightarrow> world \<Rightarrow> world option" where
  "carried clock en i [] w = Some w"
| "carried clock en i (x # xs) w =
     (case transition (clock i) en x w of
        None \<Rightarrow> carried clock en (Suc i) xs w
      | Some (r, w') \<Rightarrow> if success r then carried clock en (Suc i) xs w' else None)"

definition has_registry :: "fsmap \<Rightarrow> bool" where
  "has_registry m \<longleftrightarrow> disabled (readJsonFile m MCP_DISABLED_PATH defaultDisabled) \<noteq> None"

definition all_active :: "(string \<times> MCPServer) list \<Rightarrow> bool" where
  "all_active M \<longleftrightarrow> (\<forall>v\<in>snd ` set M. server_source v \<noteq> Disabled)"

section \<open>Example states\<close>

definition ex_memory :: MCPConfig where
  "ex_memory = \<lparr>command = Some ''npx'', args = Some [''-y'', ''server-memory''], env = None,
                 url = None, mcp_type = None\<rparr>"

definition ex_playwright :: MCPConfig where
  "ex_playwright = \<lparr>command = Some ''npx'', args = Some [''playwright''], env = None,
                     url = None, mcp_type = Some Stdio\<rparr>"

definition ex_now :: clock_reading where
  "ex_now = \<lparr>millis = 1735689600000, iso = ''2025-01-01T00:00:00.000Z'',
              fs_mtime = 1735689600000\<rparr>"

definition ex_entry :: DisabledMCPEntry where
  "ex_entry = archive_entry ex_now ex_memory User None"

definition json_file :: "JsonObject \<Rightarrow> fsfile" where
  "json_file j = \<lparr>content = Json j, mtime = 0\<rparr>"

definition ex_active :: fsmap where
  "ex_active =
     [(CLAUDE_JSON_PATH,
       json_file (emptyObject\<lparr>mcpServers := Some [(''playwright'', ex_playwright), (''memory'', ex_memory)]\<rparr>))]"

definition ex_archived :: fsmap where
  "ex_archived =
     [(CLAUDE_JSON_PATH, json_file (emptyObject\<lparr>mcpServers := Some [(''playwright'', ex_playwright)]\<rparr>)),
      (MCP_DISABLED_PATH, json_file (defaultDisabled\<lparr>disabled := Some [(''user:memory'', ex_entry)]\<rparr>))]"

definition ex_conflict :: fsmap where
  "ex_conflict =
     [(CLAUDE_JSON_PATH, json_file (emptyObject\<lparr>mcpServers := Some [(''memory'', ex_playwright)]\<rparr>)),
      (MCP_DISABLED_PATH, json_file (defaultDisabled\<lparr>disabled := Some [(''user:memory'', ex_entry)]\<rparr>))]"

definition ex_dup :: fsmap where
  "ex_dup =
     [(CLAUDE_JSON_PATH, json_file (emptyObject\<lparr>mcpServers := Some [(''memory'', ex_memory)]\<rparr>)),
      (MCP_JSON_PATH, json_file (emptyObject\<lparr>mcpServers := Some [(''memory'', ex_playwright)]\<rparr>))]"


definition ex_later :: clock_reading where
  "ex_later = \<lparr>millis = 1735689660000, iso = ''2025-01-01T00:01:00.000Z'',
                fs_mtime = 1735689660000\<rparr>"

definition ex_backup_path :: path where
  "ex_backup_path = backup_path ex_now CLAUDE_JSON_PATH"

definition ex_backup_meta :: JsonObject where
  "ex_backup_meta = emptyObject\<lparr>originalPath := Some CLAUDE_JSON_PATH,
      timestamp := Some (iso ex_now), description := Some ''Manual backup''\<rparr>"

definition ex_backup :: fsmap where
  "ex_backup =
     [(CLAUDE_JSON_PATH, json_file (emptyObject\<lparr>mcpServers := Some [(''playwright'', ex_playwright)]\<rparr>)),
      (ex_backup_path, json_file (emptyObject\<lparr>mcpServers := Some [(''memory'', ex_memory)]\<rparr>)),
      (ex_backup_path @ ''.meta.json'', json_file ex_backup_meta)]"

text \<open>A comparison by code units, standing for \<open>localeCompare\<close> in the examples.\<close>

fun ex_localeCompare :: "string \<Rightarrow> string \<Rightarrow> int" where
  "ex_localeCompare [] [] = 0"
| "ex_localeCompare [] (y # ys) = -1"
| "ex_localeCompare (x # xs) [] = 1"
| "ex_localeCompare (x # xs) (y # ys) =
     (if x = y then ex_localeCompare xs ys
      else if (of_char x :: nat) < of_char y then -1 else 1)"

definition ex_bulk :: fsmap where
  "ex_bulk =
     [(CLAUDE_JSON_PATH, json_file (emptyObject\<lparr>mcpServers := Some [(''b'', ex_playwright)]\<rparr>)),
      (MCP_DISABLED_PATH, json_file (defaultDisabled\<lparr>disabled :=
         Some [(''user:a'', ex_entry), (''user:b'', ex_entry), (''user:c'', ex_entry)]\<rparr>))]"

definition ex_disabled_server :: "string \<Rightarrow> MCPServer" where
  "ex_disabled_server n =
     \<lparr>name = n, server_config = ex_memory, enabled = False, server_source = Disabled,
      server_projectPath = None, disabledKey = Some (''user:'' @ n),
      server_metadata = Some \<lparr>disabledAt = iso ex_now, reason = ''user''\<rparr>\<rparr>"

definition ex_bulk_after :: world where
  "ex_bulk_after = snd (enableMcp ex_now ''user:a'' (start ex_bulk))"

definition ex_colon :: fsmap where
  "ex_colon =
     [(CLAUDE_JSON_PATH, json_file (emptyObject\<lparr>projects :=
         Some [(''/p'', \<lparr>project_mcpServers = Some [(''a:b'', ex_memory)], project_other = []\<rparr>)]\<rparr>))]"

definition ex_colon_disabled :: world where
  "ex_colon_disabled = snd (disableMcp ex_now ''a:b'' Local (Some ''/p'') (start ex_colon))"

definition ex_colon_restored :: world where
  "ex_colon_restored = snd (enableMcp ex_later ''local:/p:a:b'' ex_colon_disabled)"

text \<open>
  Fifteen clock readings one second apart, and fifteen snapshots of \<open>~/.claude.json\<close>
  taken at one and the same reading.
\<close>

definition ex_tick :: "nat \<Rightarrow> string \<Rightarrow> clock_reading" where
  "ex_tick k ss =
     \<lparr>millis = 1735689600000 + 1000 * k, iso = ''2025-01-01T00:00:'' @ ss @ ''.000Z'',
      fs_mtime = 1735689600000 + 1000 * k\<rparr>"

definition ex_ticks :: "clock_reading list" where
  "ex_ticks =
     [ex_tick 0 ''00'', ex_tick 1 ''01'', ex_tick 2 ''02'', ex_tick 3 ''03'', ex_tick 4 ''04'',
      ex_tick 5 ''05'', ex_tick 6 ''06'', ex_tick 7 ''07'', ex_tick 8 ''08'', ex_tick 9 ''09'',
      ex_tick 10 ''10'', ex_tick 11 ''11'', ex_tick 12 ''12'', ex_tick 13 ''13'', ex_tick 14 ''14'']"

definition ex_same_millisecond :: fsmap where
  "ex_same_millisecond =
     fs (snapshots (replicate (MAX_BACKUPS + 5) ex_now) CLAUDE_JSON_PATH None (start ex_active))"

text \<open>
  The same fifteen readings when the file system gives every copy the same modification
  time, and the snapshots taken at them.
\<close>

definition ex_tied :: "clock_reading list" where
  "ex_tied = map (\<lambda>r. r\<lparr>fs_mtime := 1735689600000\<rparr>) ex_ticks"

definition ex_tied_mtime :: fsmap where
  "ex_tied_mtime = fs (snapshots ex_tied CLAUDE_JSON_PATH None (start ex_active))"

text \<open>
  The project \<open>/p\<close> has a server \<open>a:b\<close> again while the archive still holds the entry of
  an earlier \<open>a:b\<close> of that project.
\<close>

definition ex_shadow :: fsmap where
  "ex_shadow =
     [(CLAUDE_JSON_PATH, json_file (emptyObject\<lparr>projects :=
         Some [(''/p'', \<lparr>project_mcpServers = Some [(''a:b'', ex_playwright)], project_other = []\<rparr>)]\<rparr>)),
      (MCP_DISABLED_PATH, json_file (defaultDisabled\<lparr>disabled :=
         Some [(''local:/p:a:b'',
                \<lparr>config = ex_memory, source = Local, projectPath = Some ''/p'',
                 metadata = \<lparr>disabledAt = iso ex_now, reason = ''user''\<rparr>\<rparr>)]\<rparr>))]"


definition ex_skip :: fsmap where
  "ex_skip =
     [(MCP_DISABLED_PATH, json_file (defaultDisabled\<lparr>disabled :=
         Some [(''mcpjson:fetch'',
                \<lparr>config = ex_memory, source = McpJson, projectPath = None,
                 metadata = \<lparr>disabledAt = iso ex_now, reason = ''user''\<rparr>\<rparr>)]\<rparr>))]"

section \<open>Auxiliary lemmas\<close>

lemmas path_defs = path_join_def CLAUDE_DIR_def CLAUDE_JSON_PATH_def MCP_JSON_PATH_def
  AGENTS_DIR_def CONFIG_MANAGER_DIR_def MCP_DISABLED_PATH_def AGENTS_DISABLED_DIR_def
  BACKUPS_DIR_def

lemma same_config_refl: "same_config m m"
  by (simp add: same_config_def)

lemma same_config_trans: "same_config a b \<Longrightarrow> same_config b c \<Longrightarrow> same_config a c"
  by (simp add: same_config_def)

lemma backup_steps_refl: "backup_steps w w"
  by (simp add: backup_steps_def same_config_refl)

lemma backup_steps_trans:
  assumes "backup_steps a b" "backup_steps b c"
  shows "backup_steps a c"
proof -
  from assms(1) obtain n1 where 1: "trace b = trace a @ n1"
    "\<forall>x\<in>set n1. same_config (fs a) (snd x)" "same_config (fs a) (fs b)"
    by (auto simp: backup_steps_def)
  from assms(2) obtain n2 where 2: "trace c = trace b @ n2"
    "\<forall>x\<in>set n2. same_config (fs b) (snd x)" "same_config (fs b) (fs c)"
    by (auto simp: backup_steps_def)
  have "trace c = trace a @ (n1 @ n2)" using 1 2 by simp
  moreover have "\<forall>x\<in>set (n1 @ n2). same_config (fs a) (snd x)"
    using 1 2 by (auto intro: same_config_trans)
  moreover have "same_config (fs a) (fs c)" using 1 2 by (auto intro: same_config_trans)
  ultimately show ?thesis unfolding backup_steps_def by blast
qed

lemma same_config_update:
  "prefix (BACKUPS_DIR @ ''/'') p \<Longrightarrow> same_config m (AList.update p f m)"
  by (auto simp: same_config_def update_conv')

lemma same_config_delete:
  "prefix (BACKUPS_DIR @ ''/'') p \<Longrightarrow> same_config m (AList.delete p m)"
  by (auto simp: same_config_def delete_conv')

lemma prefix_backup_path [simp]: "prefix (BACKUPS_DIR @ ''/'') (path_join BACKUPS_DIR f)"
  by (simp add: path_join_def)

lemma prefix_backup_meta [simp]: "prefix (BACKUPS_DIR @ ''/'') (path_join BACKUPS_DIR f @ s)"
  by (simp add: path_join_def)

lemma backup_steps_unlink:
  "prefix (BACKUPS_DIR @ ''/'') p \<Longrightarrow> backup_steps w (unlinkSync p w)"
  by (simp add: backup_steps_def unlinkSync_def emit_def same_config_delete)

lemma backup_steps_write:
  "prefix (BACKUPS_DIR @ ''/'') p \<Longrightarrow> backup_steps w (writeFileSync now p c w)"
  by (simp add: backup_steps_def writeFileSync_def emit_def same_config_update)

lemma backup_steps_copy:
  "prefix (BACKUPS_DIR @ ''/'') p \<Longrightarrow> backup_steps w (copyFileSync now src p w)"
  by (simp add: backup_steps_def copyFileSync_def emit_def same_config_update same_config_refl
      split: option.splits)

lemma backup_steps_unlink_backup: "backup_steps w (unlink_backup f w)"
  unfolding unlink_backup_def Let_def
  by (auto intro!: backup_steps_unlink backup_steps_trans[OF backup_steps_unlink backup_steps_unlink])

lemma backup_steps_fold_unlink: "backup_steps w (fold unlink_backup fs' w)"
proof (induction fs' arbitrary: w)
  case Nil show ?case by (simp add: backup_steps_refl)
next
  case (Cons f fs')
  show ?case using backup_steps_trans[OF backup_steps_unlink_backup Cons.IH] by simp
qed

lemma backup_steps_cleanup: "backup_steps w (cleanupOldBackups b w)"
  unfolding cleanupOldBackups_def Let_def
  by (simp add: backup_steps_refl backup_steps_fold_unlink)

lemma backup_steps_createBackup: "backup_steps w (snd (createBackup now p d w))"
  unfolding createBackup_def Let_def
  by (auto simp: backup_steps_refl
      intro!: backup_steps_trans[OF backup_steps_copy backup_steps_trans[OF backup_steps_write backup_steps_cleanup]])

lemma path_of_inj [simp]: "path_of a = path_of b \<longleftrightarrow> a = b"
  by (cases a; cases b; simp add: path_of_def path_defs)

lemma path_of_tmp [simp]: "path_of a \<noteq> path_of b @ ''.tmp''" "path_of b @ ''.tmp'' \<noteq> path_of a"
  by (cases a; cases b; simp add: path_of_def path_defs)+

lemma path_of_not_backup [simp]: "\<not> prefix (BACKUPS_DIR @ ''/'') (path_of a)"
  by (cases a; simp add: path_of_def path_defs)

lemma view_same_config: "same_config m m' \<Longrightarrow> view m' = view m"
  by (auto simp: same_config_def view_def)

lemma view_update_cfg: "view (AList.update (path_of c) f m) = (view m)(c \<mapsto> f)"
  by (auto simp: view_def update_conv')

lemma view_update_tmp: "view (AList.update (path_of c @ ''.tmp'') f m) = view m"
  by (auto simp: view_def update_conv')

lemma view_delete_tmp: "view (AList.delete (path_of c @ ''.tmp'') m) = view m"
  by (auto simp: view_def delete_conv')

lemma readJsonFile_map_of:
  "readJsonFile m p d =
     (case map_of m p of None \<Rightarrow> d
      | Some f \<Rightarrow> (case content f of Malformed s \<Rightarrow> d | Json j \<Rightarrow> j))"
  by (simp add: readJsonFile_def existsSync_def JSON_parse_def
           split: option.splits content.splits)

lemma readJsonFile_view: "readJsonFile m (path_of c) d = read_view (view m) c d"
  by (simp add: readJsonFile_map_of read_view_def view_def)

lemma writeJsonFileAtomic_steps:
  "writeJsonFileAtomic now p j w =
     \<lparr>fs = AList.update p \<lparr>content = Json j, mtime = fs_mtime now\<rparr>
             (AList.delete (p @ ''.tmp'')
                (AList.update (p @ ''.tmp'') \<lparr>content = Json j, mtime = fs_mtime now\<rparr> (fs w))),
      trace = trace w @
        [(WriteFile (p @ ''.tmp''),
          AList.update (p @ ''.tmp'') \<lparr>content = Json j, mtime = fs_mtime now\<rparr> (fs w)),
         (Rename (p @ ''.tmp'') p,
          AList.update p \<lparr>content = Json j, mtime = fs_mtime now\<rparr>
             (AList.delete (p @ ''.tmp'')
                (AList.update (p @ ''.tmp'') \<lparr>content = Json j, mtime = fs_mtime now\<rparr> (fs w))))]\<rparr>"
  by (simp add: writeJsonFileAtomic_def writeFileSync_def renameSync_def emit_def update_conv' Let_def)

lemma createBackup_view:
  "\<exists>pre. trace (snd (createBackup now p d w)) = trace w @ pre
      \<and> (\<forall>x\<in>set pre. view (snd x) = view (fs w))
      \<and> view (fs (snd (createBackup now p d w))) = view (fs w)"
  using backup_steps_createBackup[of w now p d]
  by (auto simp: backup_steps_def view_same_config)

lemma archive_then_remove_steps:
  assumes "disabled (read_view (view (fs w)) DisabledFile defaultDisabled) = Some dl"
  shows "\<exists>pre m1 m2 m3 m4.
      archive_then_remove now (path_of a) descr key entry active' w =
        (ok, \<lparr>fs = m4, trace = trace w @ pre @
               [(WriteFile (MCP_DISABLED_PATH @ ''.tmp''), m1),
                (Rename (MCP_DISABLED_PATH @ ''.tmp'') MCP_DISABLED_PATH, m2),
                (WriteFile (path_of a @ ''.tmp''), m3),
                (Rename (path_of a @ ''.tmp'') (path_of a), m4)]\<rparr>)
      \<and> (\<forall>x\<in>set pre. view (snd x) = view (fs w))
      \<and> view m1 = view (fs w)
      \<and> view m2 = (view (fs w))(DisabledFile \<mapsto>
            written now ((read_view (view (fs w)) DisabledFile defaultDisabled)
                           \<lparr>disabled := Some (AList.update key entry dl)\<rparr>))
      \<and> view m3 = view m2
      \<and> view m4 = (view m2)(a \<mapsto> written now active')"
proof -
  obtain pre where pre: "trace (snd (createBackup now (path_of a) (Some descr) w)) = trace w @ pre"
    "\<forall>x\<in>set pre. view (snd x) = view (fs w)"
    "view (fs (snd (createBackup now (path_of a) (Some descr) w))) = view (fs w)"
    using createBackup_view by blast
  have D: "MCP_DISABLED_PATH = path_of DisabledFile" by (simp add: path_of_def)
  show ?thesis
    unfolding archive_then_remove_def Let_def D readJsonFile_view pre(3)
    using assms pre(1,2)
    by (simp add: writeJsonFileAtomic_steps view_update_cfg view_update_tmp view_delete_tmp
          pre(3) written_def)
qed

lemma archive_then_remove_throws:
  assumes "disabled (read_view (view (fs w)) DisabledFile defaultDisabled) = None"
  shows "\<exists>pre w'.
      archive_then_remove now (path_of a) descr key entry active' w = (fail (Thrown TypeError), w')
      \<and> trace w' = trace w @ pre
      \<and> (\<forall>x\<in>set pre. view (snd x) = view (fs w))
      \<and> view (fs w') = view (fs w)"
proof -
  obtain pre where pre: "trace (snd (createBackup now (path_of a) (Some descr) w)) = trace w @ pre"
    "\<forall>x\<in>set pre. view (snd x) = view (fs w)"
    "view (fs (snd (createBackup now (path_of a) (Some descr) w))) = view (fs w)"
    using createBackup_view by blast
  have D: "MCP_DISABLED_PATH = path_of DisabledFile" by (simp add: path_of_def)
  show ?thesis
    unfolding archive_then_remove_def Let_def D readJsonFile_view pre(3)
    using assms pre by simp
qed

lemma restore_then_unarchive_steps:
  "\<exists>pre m1 m2 m3 m4.
      restore_then_unarchive now (path_of a) descr active' key dj dl w =
        (ok, \<lparr>fs = m4, trace = trace w @ pre @
               [(WriteFile (path_of a @ ''.tmp''), m1),
                (Rename (path_of a @ ''.tmp'') (path_of a), m2),
                (WriteFile (MCP_DISABLED_PATH @ ''.tmp''), m3),
                (Rename (MCP_DISABLED_PATH @ ''.tmp'') MCP_DISABLED_PATH, m4)]\<rparr>)
      \<and> (\<forall>x\<in>set pre. view (snd x) = view (fs w))
      \<and> view m1 = view (fs w)
      \<and> view m2 = (view (fs w))(a \<mapsto> written now active')
      \<and> view m3 = view m2
      \<and> view m4 = (view m2)(DisabledFile \<mapsto>
                      written now (dj\<lparr>disabled := Some (AList.delete key dl)\<rparr>))"
proof -
  obtain pre where pre: "trace (snd (createBackup now (path_of a) (Some descr) w)) = trace w @ pre"
    "\<forall>x\<in>set pre. view (snd x) = view (fs w)"
    "view (fs (snd (createBackup now (path_of a) (Some descr) w))) = view (fs w)"
    using createBackup_view by blast
  have D: "MCP_DISABLED_PATH = path_of DisabledFile" by (simp add: path_of_def)
  show ?thesis
    unfolding restore_then_unarchive_def Let_def D
    using pre(1,2)
    by (simp add: writeJsonFileAtomic_steps view_update_cfg view_update_tmp view_delete_tmp
          pre(3) written_def)
qed

lemma paths_as_cfg:
  "CLAUDE_JSON_PATH = path_of ClaudeFile" "MCP_JSON_PATH = path_of McpFile"
  "MCP_DISABLED_PATH = path_of DisabledFile"
  by (simp_all add: path_of_def)

lemma archived_view:
  "archived m key =
     (case disabled (read_view (view m) DisabledFile defaultDisabled) of
        None \<Rightarrow> None | Some d \<Rightarrow> map_of d key)"
  by (simp add: archived_def paths_as_cfg readJsonFile_view)

lemma live_view:
  "live m src pp n =
     (case src of
        User \<Rightarrow> map_of (servers_of (read_view (view m) ClaudeFile emptyObject)) n
      | Local \<Rightarrow>
          (if truthy pp
           then map_of (project_servers (read_view (view m) ClaudeFile emptyObject) (the pp)) n
           else None)
      | McpJson \<Rightarrow> map_of (servers_of (read_view (view m) McpFile defaultMcpJson)) n
      | Disabled \<Rightarrow> None)"
  by (cases src; simp add: live_def paths_as_cfg readJsonFile_view)

lemma read_view_upd_same [simp]: "read_view (v(c \<mapsto> written now j)) c d = j"
  by (simp add: read_view_def written_def)

lemma read_view_upd_other [simp]: "c' \<noteq> c \<Longrightarrow> read_view (v(c \<mapsto> f)) c' d = read_view v c' d"
  by (simp add: read_view_def)

lemma project_servers_set [simp]: "project_servers (set_project_servers p s j) p = s"
  by (simp add: project_servers_def project_at_def set_project_servers_def Let_def update_conv')

lemma servers_of_upd [simp]: "servers_of (j\<lparr>mcpServers := Some s\<rparr>) = s"
  by (simp add: servers_of_def)

lemma start_simps [simp]: "fs (start m) = m" "trace (start m) = []"
  by (simp_all add: start_def)

lemma success_simps [simp]: "success ok" "\<not> success (fail e)" "error (fail e) = Some e"
  by (simp_all add: ok_def fail_def)

lemma disable_tail_archive_first:
  assumes a: "a \<noteq> DisabledFile"
    and l0: "live m0 src pp n = Some c"
    and l4: "\<And>v. live_v (v(a \<mapsto> written now active')) = None"
    and lv: "\<And>m. live m src pp n = live_v (view m)"
    and lf: "\<And>v f. live_v (v(DisabledFile \<mapsto> f)) = live_v v"
  shows "let rw = archive_then_remove now (path_of a) descr key entry active' (start m0) in
     (\<forall>x\<in>set (trace (snd rw)). live (snd x) src pp n = Some c \<or> archived (snd x) key = Some entry)
     \<and> (success (fst rw) \<longrightarrow>
          (\<exists>pre m1 m2 m3. trace (snd rw) = pre @
              [(Rename (MCP_DISABLED_PATH @ ''.tmp'') MCP_DISABLED_PATH, m1),
               (WriteFile (path_of a @ ''.tmp''), m2),
               (Rename (path_of a @ ''.tmp'') (path_of a), m3)]
            \<and> (\<forall>x\<in>set pre. live (snd x) src pp n = Some c)
            \<and> live m1 src pp n = Some c \<and> archived m1 key = Some entry
            \<and> live m2 src pp n = Some c \<and> archived m2 key = Some entry
            \<and> live m3 src pp n = None \<and> archived m3 key = Some entry))"
proof (cases "disabled (read_view (view (fs (start m0))) DisabledFile defaultDisabled)")
  case None
  from archive_then_remove_throws[OF None, of now a descr key entry active']
  obtain pre w' where
    "archive_then_remove now (path_of a) descr key entry active' (start m0) = (fail (Thrown TypeError), w')"
    "trace w' = trace (start m0) @ pre" "\<forall>x\<in>set pre. view (snd x) = view (fs (start m0))"
    by blast
  then show ?thesis using l0 by (auto simp: Let_def lv)
next
  case (Some dl)
  from archive_then_remove_steps[OF Some, of now a descr key entry active']
  obtain pre m1 m2 m3 m4 where st:
    "archive_then_remove now (path_of a) descr key entry active' (start m0) =
        (ok, \<lparr>fs = m4, trace = trace (start m0) @ pre @
               [(WriteFile (MCP_DISABLED_PATH @ ''.tmp''), m1),
                (Rename (MCP_DISABLED_PATH @ ''.tmp'') MCP_DISABLED_PATH, m2),
                (WriteFile (path_of a @ ''.tmp''), m3),
                (Rename (path_of a @ ''.tmp'') (path_of a), m4)]\<rparr>)"
    "\<forall>x\<in>set pre. view (snd x) = view (fs (start m0))"
    "view m1 = view (fs (start m0))"
    "view m2 = (view (fs (start m0)))(DisabledFile \<mapsto>
            written now ((read_view (view (fs (start m0))) DisabledFile defaultDisabled)
                           \<lparr>disabled := Some (AList.update key entry dl)\<rparr>))"
    "view m3 = view m2"
    "view m4 = (view m2)(a \<mapsto> written now active')"
    by blast
  have pre: "\<forall>x\<in>set pre. live (snd x) src pp n = Some c" using st(2) l0 by (simp add: lv)
  have L1: "live m1 src pp n = Some c" using st(3) l0 by (simp add: lv)
  have L2: "live m2 src pp n = Some c" using st(4) l0 by (simp add: lv lf)
  have A2: "archived m2 key = Some entry" using st(4) by (simp add: archived_view update_conv')
  have L3: "live m3 src pp n = Some c" using L2 st(5) by (simp add: lv)
  have A3: "archived m3 key = Some entry" using A2 st(5) by (simp add: archived_view)
  have L4: "live m4 src pp n = None" using st(6) by (simp add: lv l4)
  have A4: "archived m4 key = Some entry" using A2 st(6) a by (simp add: archived_view)
  have tr: "trace (snd (archive_then_remove now (path_of a) descr key entry active' (start m0)))
      = (pre @ [(WriteFile (MCP_DISABLED_PATH @ ''.tmp''), m1)]) @
              [(Rename (MCP_DISABLED_PATH @ ''.tmp'') MCP_DISABLED_PATH, m2),
               (WriteFile (path_of a @ ''.tmp''), m3),
               (Rename (path_of a @ ''.tmp'') (path_of a), m4)]"
    using st(1) by simp
  have pre': "\<forall>x\<in>set (pre @ [(WriteFile (MCP_DISABLED_PATH @ ''.tmp''), m1)]). live (snd x) src pp n = Some c"
    using pre L1 by simp
  show ?thesis
    unfolding Let_def
  proof (intro conjI impI)
    show "\<forall>x\<in>set (trace (snd (archive_then_remove now (path_of a) descr key entry active' (start m0)))).
       live (snd x) src pp n = Some c \<or> archived (snd x) key = Some entry"
      unfolding tr using pre' L2 L3 A2 A3 A4 by auto
    show "\<exists>pre m1 m2 m3. trace (snd (archive_then_remove now (path_of a) descr key entry active' (start m0))) = pre @
              [(Rename (MCP_DISABLED_PATH @ ''.tmp'') MCP_DISABLED_PATH, m1),
               (WriteFile (path_of a @ ''.tmp''), m2),
               (Rename (path_of a @ ''.tmp'') (path_of a), m3)]
            \<and> (\<forall>x\<in>set pre. live (snd x) src pp n = Some c)
            \<and> live m1 src pp n = Some c \<and> archived m1 key = Some entry
            \<and> live m2 src pp n = Some c \<and> archived m2 key = Some entry
            \<and> live m3 src pp n = None \<and> archived m3 key = Some entry"
      using tr pre' L2 L3 L4 A2 A3 A4 by blast
  qed
qed

lemma disableMcp_archive_first:
  assumes l0: "live m0 src pp n = Some c"
  shows "archive_first src pp n c (archive_key src pp n)
           (archive_entry now c src (if src = Local then pp else None))
           (disableMcp now n src pp (start m0))"
proof (cases src)
  case User
  let ?j = "readJsonFile m0 CLAUDE_JSON_PATH emptyObject"
  have c: "map_of (servers_of ?j) n = Some c" using l0 User by (simp add: live_def)
  have "disableMcp now n src pp (start m0) =
      archive_then_remove now (path_of ClaudeFile) (''Before disabling MCP: '' @ n)
        (''user:'' @ n) (archive_entry now c User None)
        (?j\<lparr>mcpServers := Some (AList.delete n (servers_of ?j))\<rparr>) (start m0)"
    using c User by (simp add: disableMcp_def Let_def path_of_def)
  moreover have "active_path src = path_of ClaudeFile"
    using User by (simp add: active_path_def path_of_def)
  moreover note disable_tail_archive_first[where a=ClaudeFile and src=src and pp=pp and n=n
      and c=c and ?m0.0=m0 and now=now
      and live_v="\<lambda>v. map_of (servers_of (read_view v ClaudeFile emptyObject)) n"
      and active'="?j\<lparr>mcpServers := Some (AList.delete n (servers_of ?j))\<rparr>"
      and descr="''Before disabling MCP: '' @ n" and key="''user:'' @ n"
      and entry="archive_entry now c User None", OF _ l0]
  ultimately show ?thesis
    using User by (simp add: archive_first_def Let_def live_view archive_key_def delete_conv')
next
  case Local
  have t: "truthy pp" using l0 Local by (simp add: live_def split: if_splits)
  then obtain p where p: "pp = Some p" by (cases pp) (auto simp: truthy_def)
  let ?j = "readJsonFile m0 CLAUDE_JSON_PATH emptyObject"
  have c: "map_of (project_servers ?j p) n = Some c" using l0 Local t p by (simp add: live_def)
  have "disableMcp now n src pp (start m0) =
      archive_then_remove now (path_of ClaudeFile) (''Before disabling local MCP: '' @ n)
        (''local:'' @ p @ '':'' @ n) (archive_entry now c Local (Some p))
        (set_project_servers p (AList.delete n (project_servers ?j p)) ?j) (start m0)"
    using c Local t p by (simp add: disableMcp_def Let_def path_of_def)
  moreover have "active_path src = path_of ClaudeFile"
    using Local by (simp add: active_path_def path_of_def)
  moreover note disable_tail_archive_first[where a=ClaudeFile and src=src and pp=pp and n=n
      and c=c and ?m0.0=m0 and now=now
      and live_v="\<lambda>v. map_of (project_servers (read_view v ClaudeFile emptyObject) p) n"
      and active'="set_project_servers p (AList.delete n (project_servers ?j p)) ?j"
      and descr="''Before disabling local MCP: '' @ n" and key="''local:'' @ p @ '':'' @ n"
      and entry="archive_entry now c Local (Some p)", OF _ l0]
  ultimately show ?thesis
    using Local t p by (simp add: archive_first_def Let_def live_view archive_key_def delete_conv')
next
  case McpJson
  let ?j = "readJsonFile m0 MCP_JSON_PATH defaultMcpJson"
  have c: "map_of (servers_of ?j) n = Some c" using l0 McpJson by (simp add: live_def)
  have "disableMcp now n src pp (start m0) =
      archive_then_remove now (path_of McpFile) (''Before disabling MCP: '' @ n)
        (''mcpjson:'' @ n) (archive_entry now c McpJson None)
        (?j\<lparr>mcpServers := Some (AList.delete n (servers_of ?j))\<rparr>) (start m0)"
    using c McpJson by (simp add: disableMcp_def Let_def path_of_def)
  moreover have "active_path src = path_of McpFile"
    using McpJson by (simp add: active_path_def path_of_def)
  moreover note disable_tail_archive_first[where a=McpFile and src=src and pp=pp and n=n
      and c=c and ?m0.0=m0 and now=now
      and live_v="\<lambda>v. map_of (servers_of (read_view v McpFile defaultMcpJson)) n"
      and active'="?j\<lparr>mcpServers := Some (AList.delete n (servers_of ?j))\<rparr>"
      and descr="''Before disabling MCP: '' @ n" and key="''mcpjson:'' @ n"
      and entry="archive_entry now c McpJson None", OF _ l0]
  ultimately show ?thesis
    using McpJson by (simp add: archive_first_def Let_def live_view archive_key_def delete_conv')
next
  case Disabled
  then show ?thesis using l0 by (simp add: live_def)
qed

lemma enable_tail_active_first:
  assumes a: "a \<noteq> DisabledFile"
    and ar0: "archived m0 key = Some e"
    and l2: "\<And>v. live_v (v(a \<mapsto> written now active')) = Some c"
    and lv: "\<And>m. live m src pp n = live_v (view m)"
    and lf: "\<And>v f. live_v (v(DisabledFile \<mapsto> f)) = live_v v"
  shows "let rw = restore_then_unarchive now (path_of a) descr active' key dj dl (start m0) in
     (\<forall>x\<in>set (trace (snd rw)). archived (snd x) key = Some e \<or> live (snd x) src pp n = Some c)
     \<and> success (fst rw) \<and>
          (\<exists>pre m1 m2 m3. trace (snd rw) = pre @
              [(Rename (path_of a @ ''.tmp'') (path_of a), m1),
               (WriteFile (MCP_DISABLED_PATH @ ''.tmp''), m2),
               (Rename (MCP_DISABLED_PATH @ ''.tmp'') MCP_DISABLED_PATH, m3)]
            \<and> (\<forall>x\<in>set pre. archived (snd x) key = Some e)
            \<and> archived m1 key = Some e \<and> live m1 src pp n = Some c
            \<and> archived m2 key = Some e \<and> live m2 src pp n = Some c
            \<and> archived m3 key = None \<and> live m3 src pp n = Some c)"
proof -
  from restore_then_unarchive_steps[of now a descr active' key dj dl "start m0"]
  obtain pre m1 m2 m3 m4 where st:
    "restore_then_unarchive now (path_of a) descr active' key dj dl (start m0) =
        (ok, \<lparr>fs = m4, trace = trace (start m0) @ pre @
               [(WriteFile (path_of a @ ''.tmp''), m1),
                (Rename (path_of a @ ''.tmp'') (path_of a), m2),
                (WriteFile (MCP_DISABLED_PATH @ ''.tmp''), m3),
                (Rename (MCP_DISABLED_PATH @ ''.tmp'') MCP_DISABLED_PATH, m4)]\<rparr>)"
    "\<forall>x\<in>set pre. view (snd x) = view (fs (start m0))"
    "view m1 = view (fs (start m0))"
    "view m2 = (view (fs (start m0)))(a \<mapsto> written now active')"
    "view m3 = view m2"
    "view m4 = (view m2)(DisabledFile \<mapsto>
                      written now (dj\<lparr>disabled := Some (AList.delete key dl)\<rparr>))"
    by blast
  have pre: "\<forall>x\<in>set pre. archived (snd x) key = Some e"
    using st(2) ar0 by (simp add: archived_view)
  have A1: "archived m1 key = Some e" using st(3) ar0 by (simp add: archived_view)
  have A2: "archived m2 key = Some e" using st(4) ar0 a by (simp add: archived_view)
  have L2: "live m2 src pp n = Some c" using st(4) by (simp add: lv l2)
  have A3: "archived m3 key = Some e" using A2 st(5) by (simp add: archived_view)
  have L3: "live m3 src pp n = Some c" using L2 st(5) by (simp add: lv)
  have A4: "archived m4 key = None" using st(6) by (simp add: archived_view delete_conv')
  have L4: "live m4 src pp n = Some c" using st(6) st(4) by (simp add: lv lf l2)
  have tr: "trace (snd (restore_then_unarchive now (path_of a) descr active' key dj dl (start m0)))
      = (pre @ [(WriteFile (path_of a @ ''.tmp''), m1)]) @
              [(Rename (path_of a @ ''.tmp'') (path_of a), m2),
               (WriteFile (MCP_DISABLED_PATH @ ''.tmp''), m3),
               (Rename (MCP_DISABLED_PATH @ ''.tmp'') MCP_DISABLED_PATH, m4)]"
    using st(1) by simp
  have pre': "\<forall>x\<in>set (pre @ [(WriteFile (path_of a @ ''.tmp''), m1)]). archived (snd x) key = Some e"
    using pre A1 by simp
  show ?thesis
    unfolding Let_def
  proof (intro conjI)
    show "\<forall>x\<in>set (trace (snd (restore_then_unarchive now (path_of a) descr active' key dj dl (start m0)))).
       archived (snd x) key = Some e \<or> live (snd x) src pp n = Some c"
      unfolding tr using pre' L2 L3 L4 A2 A3 A4 by auto
    show "success (fst (restore_then_unarchive now (path_of a) descr active' key dj dl (start m0)))"
      using st(1) by simp
    show "\<exists>pre m1 m2 m3. trace (snd (restore_then_unarchive now (path_of a) descr active' key dj dl (start m0))) = pre @
              [(Rename (path_of a @ ''.tmp'') (path_of a), m1),
               (WriteFile (MCP_DISABLED_PATH @ ''.tmp''), m2),
               (Rename (MCP_DISABLED_PATH @ ''.tmp'') MCP_DISABLED_PATH, m3)]
            \<and> (\<forall>x\<in>set pre. archived (snd x) key = Some e)
            \<and> archived m1 key = Some e \<and> live m1 src pp n = Some c
            \<and> archived m2 key = Some e \<and> live m2 src pp n = Some c
            \<and> archived m3 key = None \<and> live m3 src pp n = Some c"
      using tr pre' L2 L3 L4 A2 A3 A4 by blast
  qed
qed

lemma active_first_unchanged: "active_first key e (fail err, start m0)"
  by (simp add: active_first_def Let_def)

lemma enableMcp_active_first:
  assumes ar0: "archived m0 key = Some e"
  shows "active_first key e (enableMcp now key (start m0))"
proof -
  let ?dj = "readJsonFile m0 MCP_DISABLED_PATH defaultDisabled"
  from ar0 obtain dl where dl: "disabled ?dj = Some dl" "map_of dl key = Some e"
    by (auto simp: archived_def split: option.splits)
  show ?thesis
  proof (cases "source e")
    case User
    let ?j = "readJsonFile m0 CLAUDE_JSON_PATH emptyObject"
    let ?n = "replace_first ''user:'' [] key"
    show ?thesis
    proof (cases "map_of (servers_of ?j) ?n")
      case (Some c')
      then have "enableMcp now key (start m0) = (fail (AlreadyExists ?n User), start m0)"
        using dl User by (simp add: enableMcp_def Let_def)
      then show ?thesis by (simp add: active_first_unchanged)
    next
      case None
      then have "enableMcp now key (start m0) =
        restore_then_unarchive now (path_of ClaudeFile) (''Before enabling MCP: '' @ ?n)
          (?j\<lparr>mcpServers := Some (AList.update ?n (config e) (servers_of ?j))\<rparr>)
          key ?dj dl (start m0)"
        using dl User by (simp add: enableMcp_def Let_def path_of_def)
      moreover have "active_path (source e) = path_of ClaudeFile"
        using User by (simp add: active_path_def path_of_def)
      moreover note enable_tail_active_first[where a=ClaudeFile and src="source e"
          and pp="projectPath e" and n="?n" and c="config e" and ?m0.0=m0 and now=now
          and live_v="\<lambda>v. map_of (servers_of (read_view v ClaudeFile emptyObject)) ?n"
          and active'="?j\<lparr>mcpServers := Some (AList.update ?n (config e) (servers_of ?j))\<rparr>"
          and descr="''Before enabling MCP: '' @ ?n" and key=key and dj="?dj" and dl=dl,
          OF _ ar0]
      ultimately show ?thesis
        using User by (simp add: active_first_def Let_def live_view restored_name_def update_conv')
    qed
  next
    case Local
    show ?thesis
    proof (cases "truthy (projectPath e)")
      case False
      then have "enableMcp now key (start m0) = (fail InvalidEntrySource, start m0)"
        using dl Local by (simp add: enableMcp_def Let_def)
      then show ?thesis by (simp add: active_first_unchanged)
    next
      case True
      then obtain p where p: "projectPath e = Some p" by (cases "projectPath e") (auto simp: truthy_def)
      let ?j = "readJsonFile m0 CLAUDE_JSON_PATH emptyObject"
      let ?n = "last_segment key"
      show ?thesis
      proof (cases "map_of (project_servers ?j p) ?n")
        case (Some c')
        then have "enableMcp now key (start m0) = (fail (AlreadyExists ?n Local), start m0)"
          using dl Local True p by (simp add: enableMcp_def Let_def)
        then show ?thesis by (simp add: active_first_unchanged)
      next
        case None
        then have "enableMcp now key (start m0) =
          restore_then_unarchive now (path_of ClaudeFile) (''Before enabling local MCP: '' @ ?n)
            (set_project_servers p (AList.update ?n (config e) (project_servers ?j p)) ?j)
            key ?dj dl (start m0)"
          using dl Local True p by (simp add: enableMcp_def Let_def path_of_def)
        moreover have "active_path (source e) = path_of ClaudeFile"
          using Local by (simp add: active_path_def path_of_def)
        moreover note enable_tail_active_first[where a=ClaudeFile and src="source e"
            and pp="projectPath e" and n="?n" and c="config e" and ?m0.0=m0 and now=now
            and live_v="\<lambda>v. map_of (project_servers (read_view v ClaudeFile emptyObject) p) ?n"
            and active'="set_project_servers p (AList.update ?n (config e) (project_servers ?j p)) ?j"
            and descr="''Before enabling local MCP: '' @ ?n" and key=key and dj="?dj" and dl=dl,
            OF _ ar0]
        ultimately show ?thesis
          using Local True p
          by (simp add: active_first_def Let_def live_view restored_name_def update_conv')
      qed
    qed
  next
    case McpJson
    let ?j = "readJsonFile m0 MCP_JSON_PATH defaultMcpJson"
    let ?n = "replace_first ''mcpjson:'' [] key"
    show ?thesis
    proof (cases "mcpServers ?j")
      case None
      then have "enableMcp now key (start m0) = (fail (Thrown TypeError), start m0)"
        using dl McpJson by (simp add: enableMcp_def Let_def)
      then show ?thesis by (simp add: active_first_unchanged)
    next
      case (Some sv)
      show ?thesis
      proof (cases "map_of sv ?n")
        case (Some c')
        then have "enableMcp now key (start m0) = (fail (AlreadyExists ?n McpJson), start m0)"
          using dl McpJson \<open>mcpServers ?j = Some sv\<close> by (simp add: enableMcp_def Let_def)
        then show ?thesis by (simp add: active_first_unchanged)
      next
        case None
        then have "enableMcp now key (start m0) =
          restore_then_unarchive now (path_of McpFile) (''Before enabling MCP: '' @ ?n)
            (?j\<lparr>mcpServers := Some (AList.update ?n (config e) sv)\<rparr>)
            key ?dj dl (start m0)"
          using dl McpJson \<open>mcpServers ?j = Some sv\<close>
          by (simp add: enableMcp_def Let_def path_of_def)
        moreover have "active_path (source e) = path_of McpFile"
          using McpJson by (simp add: active_path_def path_of_def)
        moreover note enable_tail_active_first[where a=McpFile and src="source e"
            and pp="projectPath e" and n="?n" and c="config e" and ?m0.0=m0 and now=now
            and live_v="\<lambda>v. map_of (servers_of (read_view v McpFile defaultMcpJson)) ?n"
            and active'="?j\<lparr>mcpServers := Some (AList.update ?n (config e) sv)\<rparr>"
            and descr="''Before enabling MCP: '' @ ?n" and key=key and dj="?dj" and dl=dl,
            OF _ ar0]
        ultimately show ?thesis
          using McpJson
          by (simp add: active_first_def Let_def live_view restored_name_def update_conv')
      qed
    qed
  next
    case Disabled
    then have "enableMcp now key (start m0) = (fail InvalidEntrySource, start m0)"
      using dl by (simp add: enableMcp_def Let_def)
    then show ?thesis by (simp add: active_first_unchanged)
  qed
qed

lemmas ex_defs = ex_memory_def ex_playwright_def ex_now_def ex_entry_def json_file_def
  ex_active_def ex_archived_def ex_conflict_def




lemma archive_then_remove_ok:
  assumes "disabled (read_view (view (fs w)) DisabledFile defaultDisabled) = Some dl"
  shows "\<exists>w'. archive_then_remove now (path_of a) descr key entry active' w = (ok, w')
      \<and> view (fs w') = (view (fs w))(DisabledFile \<mapsto>
            written now ((read_view (view (fs w)) DisabledFile defaultDisabled)
                           \<lparr>disabled := Some (AList.update key entry dl)\<rparr>),
            a \<mapsto> written now active')"
  using archive_then_remove_steps[OF assms, of now a descr key entry active'] by auto

lemma disableMcp_ok:
  assumes l0: "live (fs w) src pp n = Some c"
    and dl: "disabled (read_view (view (fs w)) DisabledFile defaultDisabled) = Some dl"
  shows "\<exists>w'. disableMcp now n src pp w = (ok, w')
            \<and> view (fs w') = after_disable now src pp n c (view (fs w))"
proof (cases src)
  case User
  let ?j = "readJsonFile (fs w) CLAUDE_JSON_PATH emptyObject"
  have c: "map_of (servers_of ?j) n = Some c" using l0 User by (simp add: live_def)
  have "disableMcp now n src pp w =
      archive_then_remove now (path_of ClaudeFile) (''Before disabling MCP: '' @ n)
        (''user:'' @ n) (archive_entry now c User None)
        (?j\<lparr>mcpServers := Some (AList.delete n (servers_of ?j))\<rparr>) w"
    using c User by (simp add: disableMcp_def Let_def path_of_def)
  then show ?thesis
    using archive_then_remove_ok[OF dl, of now ClaudeFile] User dl
    by (simp add: after_disable_def Let_def cfg_of_def default_of_def with_servers_def
        servers_at_def archive_key_def paths_as_cfg readJsonFile_view)
next
  case Local
  have t: "truthy pp" using l0 Local by (simp add: live_def split: if_splits)
  then obtain p where p: "pp = Some p" by (cases pp) (auto simp: truthy_def)
  let ?j = "readJsonFile (fs w) CLAUDE_JSON_PATH emptyObject"
  have c: "map_of (project_servers ?j p) n = Some c" using l0 Local t p by (simp add: live_def)
  have "disableMcp now n src pp w =
      archive_then_remove now (path_of ClaudeFile) (''Before disabling local MCP: '' @ n)
        (''local:'' @ p @ '':'' @ n) (archive_entry now c Local (Some p))
        (set_project_servers p (AList.delete n (project_servers ?j p)) ?j) w"
    using c Local t p by (simp add: disableMcp_def Let_def path_of_def)
  then show ?thesis
    using archive_then_remove_ok[OF dl, of now ClaudeFile] Local dl p
    by (simp add: after_disable_def Let_def cfg_of_def default_of_def with_servers_def
        servers_at_def archive_key_def paths_as_cfg readJsonFile_view)
next
  case McpJson
  let ?j = "readJsonFile (fs w) MCP_JSON_PATH defaultMcpJson"
  have c: "map_of (servers_of ?j) n = Some c" using l0 McpJson by (simp add: live_def)
  have "disableMcp now n src pp w =
      archive_then_remove now (path_of McpFile) (''Before disabling MCP: '' @ n)
        (''mcpjson:'' @ n) (archive_entry now c McpJson None)
        (?j\<lparr>mcpServers := Some (AList.delete n (servers_of ?j))\<rparr>) w"
    using c McpJson by (simp add: disableMcp_def Let_def path_of_def)
  then show ?thesis
    using archive_then_remove_ok[OF dl, of now McpFile] McpJson dl
    by (simp add: after_disable_def Let_def cfg_of_def default_of_def with_servers_def
        servers_at_def archive_key_def paths_as_cfg readJsonFile_view)
next
  case Disabled
  then show ?thesis using l0 by (simp add: live_def)
qed

lemma restore_then_unarchive_ok:
  "\<exists>w'. restore_then_unarchive now (path_of a) descr active' key dj dl w = (ok, w')
      \<and> view (fs w') = (view (fs w))(a \<mapsto> written now active',
            DisabledFile \<mapsto> written now (dj\<lparr>disabled := Some (AList.delete key dl)\<rparr>))"
  using restore_then_unarchive_steps[of now a descr active' key dj dl w] by auto

lemma enableMcp_ok:
  assumes ar0: "archived (fs w) key = Some e"
    and free: "live (fs w) (source e) (projectPath e) (restored_name (source e) key) = None"
    and ok: "restorable (fs w) e"
  shows "\<exists>w'. enableMcp now key w = (ok, w')
            \<and> view (fs w') = after_enable now key e (view (fs w))"
proof -
  let ?dj = "readJsonFile (fs w) MCP_DISABLED_PATH defaultDisabled"
  from ar0 obtain dl where dl: "disabled ?dj = Some dl" "map_of dl key = Some e"
    by (auto simp: archived_def split: option.splits)
  show ?thesis
  proof (cases "source e")
    case User
    let ?j = "readJsonFile (fs w) CLAUDE_JSON_PATH emptyObject"
    let ?n = "replace_first ''user:'' [] key"
    have "map_of (servers_of ?j) ?n = None" using free User by (simp add: live_def restored_name_def)
    then have "enableMcp now key w =
        restore_then_unarchive now (path_of ClaudeFile) (''Before enabling MCP: '' @ ?n)
          (?j\<lparr>mcpServers := Some (AList.update ?n (config e) (servers_of ?j))\<rparr>)
          key ?dj dl w"
      using dl User by (simp add: enableMcp_def Let_def path_of_def)
    then show ?thesis
      using restore_then_unarchive_ok[of now ClaudeFile] User dl
      by (simp add: after_enable_def Let_def cfg_of_def default_of_def with_servers_def
          servers_at_def restored_name_def paths_as_cfg readJsonFile_view)
  next
    case Local
    have t: "truthy (projectPath e)" using ok Local by (simp add: restorable_def)
    then obtain p where p: "projectPath e = Some p" by (cases "projectPath e") (auto simp: truthy_def)
    let ?j = "readJsonFile (fs w) CLAUDE_JSON_PATH emptyObject"
    let ?n = "last_segment key"
    have "map_of (project_servers ?j p) ?n = None"
      using free Local t p by (simp add: live_def restored_name_def)
    then have "enableMcp now key w =
          restore_then_unarchive now (path_of ClaudeFile) (''Before enabling local MCP: '' @ ?n)
            (set_project_servers p (AList.update ?n (config e) (project_servers ?j p)) ?j)
            key ?dj dl w"
      using dl Local t p by (simp add: enableMcp_def Let_def path_of_def)
    then show ?thesis
      using restore_then_unarchive_ok[of now ClaudeFile] Local dl p
      by (simp add: after_enable_def Let_def cfg_of_def default_of_def with_servers_def
          servers_at_def restored_name_def paths_as_cfg readJsonFile_view)
  next
    case McpJson
    let ?j = "readJsonFile (fs w) MCP_JSON_PATH defaultMcpJson"
    let ?n = "replace_first ''mcpjson:'' [] key"
    from ok McpJson obtain sv where sv: "mcpServers ?j = Some sv" by (auto simp: restorable_def)
    have "map_of sv ?n = None"
      using free McpJson sv by (simp add: live_def restored_name_def servers_of_def)
    then have "enableMcp now key w =
          restore_then_unarchive now (path_of McpFile) (''Before enabling MCP: '' @ ?n)
            (?j\<lparr>mcpServers := Some (AList.update ?n (config e) sv)\<rparr>)
            key ?dj dl w"
      using dl McpJson sv by (simp add: enableMcp_def Let_def path_of_def)
    then show ?thesis
      using restore_then_unarchive_ok[of now McpFile] McpJson dl sv
      by (simp add: after_enable_def Let_def cfg_of_def default_of_def with_servers_def
          servers_at_def restored_name_def paths_as_cfg readJsonFile_view servers_of_def)
  next
    case Disabled
    then show ?thesis using ok by (simp add: restorable_def)
  qed
qed



lemma ex_conflict_view:
  "view ex_conflict = (\<lambda>c. None)
     (ClaudeFile \<mapsto> json_file (emptyObject\<lparr>mcpServers := Some [(''memory'', ex_playwright)]\<rparr>),
      DisabledFile \<mapsto> json_file (defaultDisabled\<lparr>disabled := Some [(''user:memory'', ex_entry)]\<rparr>))"
  by (rule ext) (simp add: view_def ex_conflict_def path_of_def path_defs split: cfgfile.splits)

lemma read_view_json_file [simp]: "read_view (v(c \<mapsto> json_file j)) c d = j"
  by (simp add: read_view_def json_file_def)

lemma read_view_empty [simp]: "read_view (\<lambda>c. None) c d = d"
  by (simp add: read_view_def)

lemma map_inv_update:
  "map_inv M \<Longrightarrow> key_ok k v \<Longrightarrow> map_inv (AList.update k v M)"
  by (auto simp: map_inv_def distinct_update update_conv')

lemma map_inv_add_user: "map_inv M \<Longrightarrow> map_inv (add_user e M)"
  by (simp add: add_user_def map_inv_update key_ok_def active_server_def)

lemma map_inv_add_local: "map_inv M \<Longrightarrow> map_inv (add_local p e M)"
  by (simp add: add_local_def map_inv_update key_ok_def active_server_def)

lemma map_inv_fold_local: "map_inv M \<Longrightarrow> map_inv (fold (add_local p) s M)"
  by (induction s arbitrary: M) (simp_all add: map_inv_add_local)

lemma map_inv_add_project: "map_inv M \<Longrightarrow> map_inv (add_project pe M)"
  by (simp add: add_project_def map_inv_fold_local split: option.splits)

lemma map_inv_add_mcpjson: "map_inv M \<Longrightarrow> map_inv (add_mcpjson e M)"
  by (simp add: add_mcpjson_def map_inv_update key_ok_def active_server_def)

lemma map_inv_add_disabled: "map_inv M \<Longrightarrow> map_inv (add_disabled de M)"
  by (simp add: add_disabled_def Let_def map_inv_update key_ok_def)

lemma map_inv_fold:
  assumes "\<And>e M. map_inv M \<Longrightarrow> map_inv (f e M)"
  shows "map_inv M \<Longrightarrow> map_inv (fold f xs M)"
  by (induction xs arbitrary: M) (simp_all add: assms)

lemma map_inv_mcpMap: "map_inv (mcpMap m)"
  unfolding mcpMap_def Let_def
  by (intro map_inv_fold map_inv_add_disabled map_inv_add_mcpjson map_inv_add_project map_inv_add_user)
     (simp_all add: map_inv_def)

lemma fold_add_user_lookup:
  "distinct (map fst S) \<Longrightarrow>
   map_of (fold add_user S acc) (''user:'' @ n) =
     (case map_of S n of Some c \<Rightarrow> Some (active_server n c User None)
      | None \<Rightarrow> map_of acc (''user:'' @ n))"
proof (induction S arbitrary: acc)
  case Nil
  then show ?case by simp
next
  case (Cons e S)
  obtain n' c' where e: "e = (n', c')" by (cases e)
  have d: "distinct (map fst S)" "n' \<notin> fst ` set S" using Cons.prems e by auto
  show ?case
  proof (cases "n' = n")
    case True
    have "map_of S n = None" using d(2) True by (simp add: map_of_eq_None_iff)
    then show ?thesis using Cons.IH[OF d(1)] e True by (simp add: add_user_def update_conv')
  next
    case False
    then show ?thesis using Cons.IH[OF d(1)] e by (simp add: add_user_def update_conv' split: option.splits)
  qed
qed

lemma fold_add_user_mcpjson: 
  "map_of (fold add_user S acc) (''mcpjson:'' @ n) = map_of acc (''mcpjson:'' @ n)"
  by (induction S arbitrary: acc) (simp_all add: add_user_def update_conv')

lemma local_key_neq: "\<not> prefix ''local:'' k \<Longrightarrow> k \<noteq> ''local:'' @ x"
  by auto

lemma disabled_key_neq: "\<not> prefix ''disabled:'' k \<Longrightarrow> k \<noteq> ''disabled:'' @ x"
  by auto

lemma fold_add_local_keep:
  "\<not> prefix ''local:'' k \<Longrightarrow> map_of (fold (add_local p) s M) k = map_of M k"
proof (induction s arbitrary: M)
  case Nil
  then show ?case by simp
next
  case (Cons e s)
  have "k \<noteq> ''local:'' @ (p @ '':'' @ fst e)" using Cons.prems by (rule local_key_neq)
  then have "map_of (add_local p e M) k = map_of M k"
    by (simp add: add_local_def update_conv')
  then show ?case using Cons.IH[OF Cons.prems] by simp
qed

lemma fold_add_project_keep:
  "\<not> prefix ''local:'' k \<Longrightarrow> map_of (fold add_project ps M) k = map_of M k"
proof (induction ps arbitrary: M)
  case Nil
  then show ?case by simp
next
  case (Cons pe ps)
  have "map_of (add_project pe M) k = map_of M k"
    using Cons.prems by (simp add: add_project_def fold_add_local_keep split: option.splits)
  then show ?case using Cons.IH[OF Cons.prems] by simp
qed

lemma fold_add_disabled_keep:
  "\<not> prefix ''disabled:'' k \<Longrightarrow> map_of (fold add_disabled ds M) k = map_of M k"
proof (induction ds arbitrary: M)
  case Nil
  then show ?case by simp
next
  case (Cons de ds)
  have "\<And>x. k \<noteq> ''disabled:'' @ x" using Cons.prems by (rule disabled_key_neq)
  from this[of "''local:'' @ template_string (projectPath (snd de)) @ '':'' @ last_segment (fst de)"]
    this[of "source_string (source (snd de)) @ '':'' @ last_segment (fst de)"]
  have "map_of (add_disabled de M) k = map_of M k"
    by (simp add: add_disabled_def Let_def update_conv')
  then show ?case using Cons.IH[OF Cons.prems] by simp
qed

lemma fold_add_mcpjson_user:
  "map_of (fold add_mcpjson S M) (''user:'' @ n) = map_of M (''user:'' @ n)"
  by (induction S arbitrary: M) (simp_all add: add_mcpjson_def update_conv')

lemma fold_add_mcpjson_blocked:
  "map_of M (''user:'' @ n) \<noteq> None \<Longrightarrow>
   map_of (fold add_mcpjson S M) (''mcpjson:'' @ n) = map_of M (''mcpjson:'' @ n)"
proof (induction S arbitrary: M)
  case Nil
  then show ?case by simp
next
  case (Cons e S)
  have 1: "map_of (add_mcpjson e M) (''user:'' @ n) \<noteq> None"
    using Cons.prems by (simp add: add_mcpjson_def update_conv')
  have 2: "map_of (add_mcpjson e M) (''mcpjson:'' @ n) = map_of M (''mcpjson:'' @ n)"
    using Cons.prems by (cases "fst e = n") (auto simp: add_mcpjson_def update_conv')
  show ?case using Cons.IH[OF 1] 2 by simp
qed

lemma filter_unique_value:
  assumes "distinct (map fst M)" "map_of M k = Some v" "Q v"
    and "\<And>k' v'. map_of M k' = Some v' \<Longrightarrow> Q v' \<Longrightarrow> k' = k"
  shows "filter Q (map snd M) = [v]"
  using assms
proof (induction M)
  case Nil
  then show ?case by simp
next
  case (Cons x M)
  obtain k0 v0 where x: "x = (k0, v0)" by (cases x)
  have d: "distinct (map fst M)" "k0 \<notin> fst ` set M" using Cons.prems(1) x by auto
  show ?case
  proof (cases "k0 = k")
    case True
    then have v0: "v0 = v" using Cons.prems(2) x by simp
    have "filter Q (map snd M) = []"
    proof (rule ccontr)
      assume "filter Q (map snd M) \<noteq> []"
      then obtain v' where "v' \<in> set (map snd M)" "Q v'"
        by (metis filter_empty_conv)
      then obtain k' where kv: "(k', v') \<in> set M" by auto
      then have "map_of M k' = Some v'" using d(1) by simp
      moreover have "k' \<noteq> k0" using kv d(2) by force
      ultimately have "map_of (x # M) k' = Some v'" using x by simp
      from Cons.prems(4)[OF this \<open>Q v'\<close>] True \<open>k' \<noteq> k0\<close> show False by simp
    qed
    then show ?thesis using x v0 Cons.prems(3) by simp
  next
    case False
    then have m: "map_of M k = Some v" using Cons.prems(2) x by simp
    have nq: "\<not> Q v0"
    proof
      assume "Q v0"
      moreover have "map_of (x # M) k0 = Some v0" using x by simp
      ultimately have "k0 = k" using Cons.prems(4) by blast
      with False show False by simp
    qed
    have "\<And>k' v'. map_of M k' = Some v' \<Longrightarrow> Q v' \<Longrightarrow> k' = k"
    proof -
      fix k' v' assume a: "map_of M k' = Some v'" "Q v'"
      then have "(k', v') \<in> set M" by (simp add: map_of_SomeD)
      then have "k' \<in> fst ` set M" by force
      then have "k' \<noteq> k0" using d(2) by auto
      then have "map_of (x # M) k' = Some v'" using a(1) x by simp
      then show "k' = k" using Cons.prems(4) a(2) by blast
    qed
    from Cons.IH[OF d(1) m Cons.prems(3) this] nq x show ?thesis by simp
  qed
qed

lemma mset_insert_by: "mset (insert_by c x xs) = add_mset x (mset xs)"
  by (induction xs) simp_all

lemma mset_fold_insert_by: "mset (fold (insert_by c) xs acc) = mset xs + mset acc"
  by (induction xs arbitrary: acc) (simp_all add: mset_insert_by)

lemma mset_sort_by: "mset (sort_by c xs) = mset xs"
  by (simp add: sort_by_def mset_fold_insert_by)

lemma filter_sort_by_single:
  assumes "filter Q xs = [v]"
  shows "filter Q (sort_by c xs) = [v]"
proof -
  have "mset (filter Q (sort_by c xs)) = mset (filter Q xs)"
    by (simp add: mset_sort_by)
  then have "mset (filter Q (sort_by c xs)) = {#v#}" using assms by simp
  then show ?thesis by (simp only: mset_single_iff)
qed

lemma ex_dup_view:
  "view ex_dup = (\<lambda>c. None)
     (ClaudeFile \<mapsto> json_file (emptyObject\<lparr>mcpServers := Some [(''memory'', ex_memory)]\<rparr>),
      McpFile \<mapsto> json_file (emptyObject\<lparr>mcpServers := Some [(''memory'', ex_playwright)]\<rparr>))"
  by (rule ext) (simp add: view_def ex_dup_def path_of_def path_defs split: cfgfile.splits)

lemma ex_dup_reads:
  "readJsonFile ex_dup CLAUDE_JSON_PATH d = emptyObject\<lparr>mcpServers := Some [(''memory'', ex_memory)]\<rparr>"
  "readJsonFile ex_dup MCP_JSON_PATH d = emptyObject\<lparr>mcpServers := Some [(''memory'', ex_playwright)]\<rparr>"
  "readJsonFile ex_dup MCP_DISABLED_PATH d = d"
  by (simp_all add: paths_as_cfg readJsonFile_view ex_dup_view)

lemma enableMcp_already_exists:
  assumes "archived (fs w) key = Some e"
    and "live (fs w) (source e) (projectPath e) (restored_name (source e) key) = Some c"
  shows "enableMcp now key w = (fail (AlreadyExists (restored_name (source e) key) (source e)), w)"
proof -
  from assms(1) obtain dl where
    dl: "disabled (readJsonFile (fs w) MCP_DISABLED_PATH defaultDisabled) = Some dl"
        "map_of dl key = Some e"
    by (auto simp: archived_def split: option.splits)
  show ?thesis
  proof (cases "source e")
    case User
    then show ?thesis using dl assms(2)
      by (simp add: enableMcp_def Let_def live_def restored_name_def)
  next
    case Local
    then show ?thesis using dl assms(2)
      by (simp add: enableMcp_def Let_def live_def restored_name_def split: if_splits)
  next
    case McpJson
    then show ?thesis using dl assms(2)
      by (auto simp: enableMcp_def Let_def live_def restored_name_def servers_of_def
          split: option.splits)
  next
    case Disabled
    then show ?thesis using assms(2) by (simp add: live_def)
  qed
qed


lemma createBackup_absent:
  "map_of (fs w) p = None \<Longrightarrow> createBackup now p d w = (None, w)"
  by (simp add: createBackup_def existsSync_def)

lemma writeJsonFileAtomic_extends:
  "\<exists>rest. trace (writeJsonFileAtomic now p j w) = trace w @ rest"
  by (simp add: writeJsonFileAtomic_steps)








lemma length_readdirSync: "length (filter P (readdirSync m d)) \<le> length m"
proof -
  have "length (filter P (readdirSync m d)) \<le> length (readdirSync m d)" by simp
  also have "\<dots> \<le> length m"
    unfolding readdirSync_def
    using length_filter_le[of _ "map fst m"] by simp
  finally show ?thesis .
qed

lemma length_insert_by: "length (insert_by c x xs) = Suc (length xs)"
  by (induction xs) simp_all

lemma length_fold_insert_by: "length (fold (insert_by c) xs acc) = length xs + length acc"
  by (induction xs arbitrary: acc) (simp_all add: length_insert_by)

lemma length_sort_by: "length (sort_by c xs) = length xs"
  by (simp add: sort_by_def length_fold_insert_by)

lemma cleanupOldBackups_small:
  "length (fs w) \<le> MAX_BACKUPS \<Longrightarrow> cleanupOldBackups b w = w"
  using length_readdirSync[of "is_backup_of b" "fs w" BACKUPS_DIR]
  by (simp add: cleanupOldBackups_def Let_def length_sort_by)

lemma length_update_le: "length (AList.update k v al) \<le> Suc (length al)"
  by (induction al) auto

lemma createBackup_small:
  assumes "map_of (fs w) p = Some f" "length (fs w) + 2 \<le> MAX_BACKUPS"
  shows "createBackup now p d w =
     (Some (backup_path now p),
      writeFileSync now (backup_path now p @ ''.meta.json'')
        (Json (emptyObject\<lparr>originalPath := Some p, timestamp := Some (iso now),
                 description := Some (backup_description d)\<rparr>))
        (copyFileSync now p (backup_path now p) w))"
proof -
  let ?w2 = "writeFileSync now (backup_path now p @ ''.meta.json'')
        (Json (emptyObject\<lparr>originalPath := Some p, timestamp := Some (iso now),
                 description := Some (backup_description d)\<rparr>))
        (copyFileSync now p (backup_path now p) w)"
  have "length (fs (copyFileSync now p (backup_path now p) w)) \<le> Suc (length (fs w))"
    using assms(1) by (simp add: copyFileSync_def emit_def length_update_le)
  moreover have "length (fs ?w2) \<le> Suc (length (fs (copyFileSync now p (backup_path now p) w)))"
    by (simp add: writeFileSync_def emit_def length_update_le)
  ultimately have "length (fs ?w2) \<le> MAX_BACKUPS" using assms(2) by simp
  then have "cleanupOldBackups (basename p) ?w2 = ?w2" by (rule cleanupOldBackups_small)
  then show ?thesis
    using assms(1) by (simp add: createBackup_def existsSync_def Let_def backup_path_def)
qed

lemma ex_backup_lookups:
  "map_of ex_backup CLAUDE_JSON_PATH = Some (json_file (emptyObject\<lparr>mcpServers := Some [(''playwright'', ex_playwright)]\<rparr>))"
  "map_of ex_backup ex_backup_path = Some (json_file (emptyObject\<lparr>mcpServers := Some [(''memory'', ex_memory)]\<rparr>))"
  "map_of ex_backup (ex_backup_path @ ''.meta.json'') = Some (json_file ex_backup_meta)"
  by (simp_all add: ex_backup_def ex_backup_path_def backup_path_def path_defs)

lemma toggle_loop_first_failure:
  assumes "toggle_loop clock en i items w = (r, w')" and "\<not> success r"
  shows "\<exists>pre x post wm.
      items = pre @ x # post
    \<and> toggle_loop clock en i pre w = (allDone, wm)
    \<and> toggle_loop clock en (i + length pre) [x] wm = (r, w')
    \<and> (r = fail (Thrown TypeError) \<or> (\<exists>e. r = fail (FailedToToggle (name x) e)))"
  using assms
proof (induction items arbitrary: i w)
  case Nil
  then show ?case by (auto simp: allDone_def)
next
  case (Cons mcp rest)
  let ?one = "toggle_loop clock en i [mcp] w"
  show ?case
  proof (cases "success (fst ?one)")
    case False
    have same: "toggle_loop clock en i (mcp # rest) w = ?one"
      using False
      by (auto simp: allDone_def fail_def split: if_splits option.splits prod.splits)
    have shape: "fst ?one = fail (Thrown TypeError) \<or> (\<exists>e. fst ?one = fail (FailedToToggle (name mcp) e))"
      using False
      by (auto simp: allDone_def fail_def split: if_splits option.splits prod.splits)
    have "mcp # rest = [] @ mcp # rest" by simp
    moreover have "toggle_loop clock en i [] w = (allDone, w)" by simp
    moreover have "toggle_loop clock en (i + length ([]::MCPServer list)) [mcp] w = (r, w')"
      using same Cons.prems(1) by simp
    moreover have "r = fail (Thrown TypeError) \<or> (\<exists>e. r = fail (FailedToToggle (name mcp) e))"
      using shape same Cons.prems(1) by simp
    ultimately show ?thesis by blast
  next
    case True
    obtain w1 where one: "?one = (allDone, w1)"
      using True
      by (cases ?one) (auto simp: allDone_def fail_def split: if_splits option.splits prod.splits)
    have step: "toggle_loop clock en i (mcp # rest) w = toggle_loop clock en (Suc i) rest w1"
      using one
      by (auto simp: allDone_def fail_def split: if_splits option.splits prod.splits)
    have pre_step: "\<And>pre. toggle_loop clock en i (mcp # pre) w = toggle_loop clock en (Suc i) pre w1"
      using one
      by (auto simp: allDone_def fail_def split: if_splits option.splits prod.splits)
    have "toggle_loop clock en (Suc i) rest w1 = (r, w')"
      using step Cons.prems(1) by (simp only:)
    from Cons.IH[OF this Cons.prems(2)]
    obtain pre x post wm where ih:
      "rest = pre @ x # post"
      "toggle_loop clock en (Suc i) pre w1 = (allDone, wm)"
      "toggle_loop clock en (Suc i + length pre) [x] wm = (r, w')"
      "r = fail (Thrown TypeError) \<or> (\<exists>e. r = fail (FailedToToggle (name x) e))"
      by blast
    have "mcp # rest = (mcp # pre) @ x # post" using ih(1) by simp
    moreover have "toggle_loop clock en i (mcp # pre) w = (allDone, wm)"
      using pre_step ih(2) by (simp only:)
    moreover have "i + length (mcp # pre) = Suc i + length pre" by simp
    then have "toggle_loop clock en (i + length (mcp # pre)) [x] wm = (r, w')"
      using ih(3) by (simp only:)
    ultimately show ?thesis using ih(4) by blast
  qed
qed

lemma eligible_fun:
  "eligible en = (\<lambda>mcp. en \<and> server_source mcp = Disabled \<or> \<not> en \<and> server_source mcp = User)"
  by (rule ext) (simp add: eligible_def)

lemma toggleAllMcps_as_loop:
  "toggleAllMcps localeCompare clock en w =
     (if filter (eligible en) (fst (loadMCPs localeCompare w)) = []
      then (\<lparr>success = True, error = None, requiresRestart = Some False\<rparr>, w)
      else toggle_loop clock en 0 (filter (eligible en) (fst (loadMCPs localeCompare w))) w)"
  by (simp add: toggleAllMcps_def loadMCPs_def eligible_fun Let_def)

lemma ex_bulk_view:
  "view ex_bulk = (\<lambda>c. None)
     (ClaudeFile \<mapsto> json_file (emptyObject\<lparr>mcpServers := Some [(''b'', ex_playwright)]\<rparr>),
      DisabledFile \<mapsto> json_file (defaultDisabled\<lparr>disabled :=
         Some [(''user:a'', ex_entry), (''user:b'', ex_entry), (''user:c'', ex_entry)]\<rparr>))"
  by (rule ext) (simp add: view_def ex_bulk_def path_of_def path_defs split: cfgfile.splits)

lemma ex_bulk_reads:
  "readJsonFile ex_bulk CLAUDE_JSON_PATH d = emptyObject\<lparr>mcpServers := Some [(''b'', ex_playwright)]\<rparr>"
  "readJsonFile ex_bulk MCP_JSON_PATH d = d"
  "readJsonFile ex_bulk MCP_DISABLED_PATH d = defaultDisabled\<lparr>disabled :=
         Some [(''user:a'', ex_entry), (''user:b'', ex_entry), (''user:c'', ex_entry)]\<rparr>"
  by (simp_all add: paths_as_cfg readJsonFile_view ex_bulk_view)

lemma ex_entry_fields:
  "source ex_entry = User" "projectPath ex_entry = None" "config ex_entry = ex_memory"
  "metadata ex_entry = \<lparr>disabledAt = iso ex_now, reason = ''user''\<rparr>"
  by (simp_all add: ex_entry_def archive_entry_def)

lemma ex_bulk_mcpMap:
  "map snd (mcpMap ex_bulk) =
     [active_server ''b'' ex_playwright User None,
      ex_disabled_server ''a'', ex_disabled_server ''b'', ex_disabled_server ''c'']"
  by (simp add: mcpMap_def ex_bulk_reads servers_of_def emptyObject_def defaultDisabled_def
      defaultMcpJson_def add_user_def add_disabled_def last_segment_def ex_entry_fields
      source_string_def ex_disabled_server_def Let_def)

lemma ex_bulk_items:
  "filter (eligible True) (fst (loadMCPs ex_localeCompare (start ex_bulk))) =
     [ex_disabled_server ''a'', ex_disabled_server ''b'', ex_disabled_server ''c'']"
  by (simp add: loadMCPs_def ex_bulk_mcpMap sort_by_def compareServers_def sourcePriority_def
      ex_disabled_server_def active_server_def eligible_def)

lemma ex_bulk_first:
  "enableMcp ex_now ''user:a'' (start ex_bulk) = (ok, ex_bulk_after)"
  "view (fs ex_bulk_after) = (\<lambda>c. None)
     (ClaudeFile \<mapsto> written ex_now
        (emptyObject\<lparr>mcpServers := Some [(''b'', ex_playwright), (''a'', ex_memory)]\<rparr>),
      DisabledFile \<mapsto> written ex_now
        (defaultDisabled\<lparr>disabled := Some [(''user:b'', ex_entry), (''user:c'', ex_entry)]\<rparr>))"
proof -
  have a: "archived (fs (start ex_bulk)) ''user:a'' = Some ex_entry"
    by (simp add: archived_view ex_bulk_view defaultDisabled_def)
  have l: "live (fs (start ex_bulk)) (source ex_entry) (projectPath ex_entry)
            (restored_name (source ex_entry) ''user:a'') = None"
    by (simp add: ex_entry_fields restored_name_def live_view ex_bulk_view servers_of_def)
  have r: "restorable (fs (start ex_bulk)) ex_entry"
    by (simp add: restorable_def ex_entry_fields)
  from enableMcp_ok[OF a l r, of ex_now]
  obtain w' where w': "enableMcp ex_now ''user:a'' (start ex_bulk) = (ok, w')"
    "view (fs w') = after_enable ex_now ''user:a'' ex_entry (view (fs (start ex_bulk)))"
    by blast
  show "enableMcp ex_now ''user:a'' (start ex_bulk) = (ok, ex_bulk_after)"
    using w'(1) by (simp add: ex_bulk_after_def)
  have "view (fs ex_bulk_after) = after_enable ex_now ''user:a'' ex_entry (view ex_bulk)"
    using w' by (simp add: ex_bulk_after_def)
  also have "\<dots> = (\<lambda>c. None)
     (ClaudeFile \<mapsto> written ex_now
        (emptyObject\<lparr>mcpServers := Some [(''b'', ex_playwright), (''a'', ex_memory)]\<rparr>),
      DisabledFile \<mapsto> written ex_now
        (defaultDisabled\<lparr>disabled := Some [(''user:b'', ex_entry), (''user:c'', ex_entry)]\<rparr>))"
    by (rule ext)
       (simp add: after_enable_def Let_def ex_entry_fields ex_bulk_view cfg_of_def default_of_def
          with_servers_def servers_at_def restored_name_def servers_of_def defaultDisabled_def)
  finally show "view (fs ex_bulk_after) = (\<lambda>c. None)
     (ClaudeFile \<mapsto> written ex_now
        (emptyObject\<lparr>mcpServers := Some [(''b'', ex_playwright), (''a'', ex_memory)]\<rparr>),
      DisabledFile \<mapsto> written ex_now
        (defaultDisabled\<lparr>disabled := Some [(''user:b'', ex_entry), (''user:c'', ex_entry)]\<rparr>))" .
qed

lemma ex_bulk_after_facts:
  "archived (fs ex_bulk_after) ''user:b'' = Some ex_entry"
  "archived (fs ex_bulk_after) ''user:c'' = Some ex_entry"
  "live (fs ex_bulk_after) User None ''a'' = Some ex_memory"
  "live (fs ex_bulk_after) User None ''b'' = Some ex_playwright"
  "live (fs ex_bulk_after) User None ''c'' = None"
  "disabled (readJsonFile (fs ex_bulk_after) MCP_DISABLED_PATH defaultDisabled)
     = Some [(''user:b'', ex_entry), (''user:c'', ex_entry)]"
  by (simp_all add: archived_view live_view ex_bulk_first(2) servers_of_def defaultDisabled_def
      paths_as_cfg readJsonFile_view)

lemma ex_bulk_second:
  "enableMcp ex_now ''user:b'' ex_bulk_after = (fail (AlreadyExists ''b'' User), ex_bulk_after)"
  using enableMcp_already_exists[of ex_bulk_after "''user:b''" ex_entry ex_playwright ex_now]
  by (simp add: ex_bulk_after_facts ex_entry_fields restored_name_def)

lemma ex_bulk_run:
  "toggleAllMcps ex_localeCompare (\<lambda>i. ex_now) True (start ex_bulk) =
     (fail (FailedToToggle ''b'' (Some (AlreadyExists ''b'' User))), ex_bulk_after)"
proof -
  have "toggleAllMcps ex_localeCompare (\<lambda>i. ex_now) True (start ex_bulk) =
      toggle_loop (\<lambda>i. ex_now) True 0
        [ex_disabled_server ''a'', ex_disabled_server ''b'', ex_disabled_server ''c''] (start ex_bulk)"
    by (simp only: toggleAllMcps_as_loop ex_bulk_items list.simps if_False)
  also have "\<dots> = toggle_loop (\<lambda>i. ex_now) True 1
        [ex_disabled_server ''b'', ex_disabled_server ''c''] ex_bulk_after"
    by (simp add: ex_bulk_reads ex_disabled_server_def ex_bulk_first(1))
  also have "\<dots> = (fail (FailedToToggle ''b'' (Some (AlreadyExists ''b'' User))), ex_bulk_after)"
    by (simp add: ex_bulk_after_facts ex_disabled_server_def ex_bulk_second)
  finally show ?thesis .
qed

lemma replace_first_prefix: "pat \<noteq> [] \<Longrightarrow> replace_first pat [] (pat @ n) = n"
  by (cases pat) simp_all

lemma last_segment_append:
  "CHR '':'' \<notin> set n \<Longrightarrow> last_segment (xs @ '':'' @ n) = n"
proof -
  have "takeWhile (\<lambda>c. c \<noteq> CHR '':'') (rev n @ CHR '':'' # rev xs) = rev n"
    if "CHR '':'' \<notin> set n"
    using that by (subst takeWhile_append2) auto
  then show "CHR '':'' \<notin> set n \<Longrightarrow> last_segment (xs @ '':'' @ n) = n"
    by (simp add: last_segment_def)
qed

lemma restored_name_archive_key:
  assumes "src = Local \<longrightarrow> CHR '':'' \<notin> set n" "src \<noteq> Disabled"
  shows "restored_name src (archive_key src pp n) = n"
proof (cases src)
  case User
  then show ?thesis by (simp add: restored_name_def archive_key_def)
next
  case Local
  then have "CHR '':'' \<notin> set n" using assms by simp
  from last_segment_append[OF this, of "''local:'' @ the pp"] Local
  show ?thesis by (simp add: restored_name_def archive_key_def)
next
  case McpJson
  then show ?thesis by (simp add: restored_name_def archive_key_def)
next
  case Disabled
  then show ?thesis using assms by simp
qed

lemma project_servers_set_other:
  "project_servers (set_project_servers p s j) p' = (if p' = p then s else project_servers j p')"
  by (simp add: project_servers_def project_at_def set_project_servers_def Let_def update_conv'
      split: option.splits)

lemma servers_of_set_project [simp]: "servers_of (set_project_servers p s j) = servers_of j"
  by (simp add: servers_of_def set_project_servers_def Let_def)

lemma project_servers_upd_servers [simp]: "project_servers (j\<lparr>mcpServers := x\<rparr>) p = project_servers j p"
  by (simp add: project_servers_def project_at_def)

lemma map_of_update_delete:
  "map_of s n = Some c \<Longrightarrow> map_of (AList.update n c (AList.delete n s)) = map_of s"
  by (rule ext) (simp add: update_conv' delete_conv')

lemma cfg_of_not_disabled [simp]: "cfg_of src \<noteq> DisabledFile" "DisabledFile \<noteq> cfg_of src"
  by (cases src; simp add: cfg_of_def)+

lemma archive_entry_fields [simp]:
  "source (archive_entry now c s p) = s" "projectPath (archive_entry now c s p) = p"
  "config (archive_entry now c s p) = c"
  by (simp_all add: archive_entry_def)

text \<open>
  Disabling a live server and then enabling its archive key gives every active source
  the servers and payloads it had before, and removes the key from the archive,
  provided the archive is readable and, for a project-scoped server, the name has no
  colon.
\<close>

lemma disable_enable_round_trip:
  assumes l0: "live (fs w) src pp n = Some c"
    and dl: "disabled (readJsonFile (fs w) MCP_DISABLED_PATH defaultDisabled) = Some dl"
    and nm: "src = Local \<longrightarrow> CHR '':'' \<notin> set n"
  shows "\<exists>w1 w2. disableMcp now n src pp w = (ok, w1)
        \<and> enableMcp now' (archive_key src pp n) w1 = (ok, w2)
        \<and> (\<forall>src' pp' n'. live (fs w2) src' pp' n' = live (fs w) src' pp' n')
        \<and> archived (fs w2) (archive_key src pp n) = None"
proof -
  let ?key = "archive_key src pp n"
  let ?e = "archive_entry now c src (if src = Local then pp else None)"
  have sd: "src \<noteq> Disabled" using l0 by (auto simp: live_def)
  have tp: "src = Local \<Longrightarrow> truthy pp" using l0 by (auto simp: live_def split: if_splits)
  have dl': "disabled (read_view (view (fs w)) DisabledFile defaultDisabled) = Some dl"
    using dl by (simp add: paths_as_cfg readJsonFile_view)
  from disableMcp_ok[OF l0 dl', of now]
  obtain w1 where w1: "disableMcp now n src pp w = (ok, w1)"
    "view (fs w1) = after_disable now src pp n c (view (fs w))" by blast
  have rn: "restored_name src ?key = n" using restored_name_archive_key[OF nm sd] .
  have a1: "archived (fs w1) ?key = Some ?e"
    by (simp add: archived_view w1(2) after_disable_def Let_def dl' update_conv')
  have l1': "live (fs w1) src (if src = Local then pp else None) n = None"
    using sd tp
    by (cases src)
       (simp_all add: live_view w1(2) after_disable_def Let_def cfg_of_def default_of_def
          with_servers_def servers_at_def delete_conv')
  have l1: "live (fs w1) (source ?e) (projectPath ?e) (restored_name (source ?e) ?key) = None"
    using l1' by (simp add: rn)
  have r1: "restorable (fs w1) ?e"
    using sd tp
    by (cases src)
       (simp_all add: restorable_def paths_as_cfg readJsonFile_view w1(2) after_disable_def
          Let_def cfg_of_def default_of_def with_servers_def servers_at_def)
  from enableMcp_ok[OF a1 l1 r1, of now']
  obtain w2 where w2: "enableMcp now' ?key w1 = (ok, w2)"
    "view (fs w2) = after_enable now' ?key ?e (view (fs w1))" by blast
  have a2: "archived (fs w2) ?key = None"
    by (simp add: archived_view w2(2) after_enable_def Let_def w1(2) after_disable_def dl'
        delete_conv')
  have l2: "live (fs w2) src' pp' n' = live (fs w) src' pp' n'" for src' pp' n'
  proof (cases src)
    case User
    have c0: "map_of (servers_of (read_view (view (fs w)) ClaudeFile emptyObject)) n = Some c"
      using l0 User by (simp add: live_view)
    show ?thesis
      using User rn map_of_update_delete[OF c0]
      by (cases src')
         (simp_all add: live_view w2(2) after_enable_def Let_def w1(2) after_disable_def
            cfg_of_def default_of_def with_servers_def servers_at_def)
  next
    case Local
    then obtain p where p: "pp = Some p" using tp by (cases pp) (auto simp: truthy_def)
    have c0: "map_of (project_servers (read_view (view (fs w)) ClaudeFile emptyObject) p) n = Some c"
      using l0 Local p by (simp add: live_view split: if_splits)
    show ?thesis
      using Local p rn map_of_update_delete[OF c0]
      by (cases src')
         (simp_all add: live_view w2(2) after_enable_def Let_def w1(2) after_disable_def
            cfg_of_def default_of_def with_servers_def servers_at_def project_servers_set_other)
  next
    case McpJson
    have c0: "map_of (servers_of (read_view (view (fs w)) McpFile defaultMcpJson)) n = Some c"
      using l0 McpJson by (simp add: live_view)
    show ?thesis
      using McpJson rn map_of_update_delete[OF c0]
      by (cases src')
         (simp_all add: live_view w2(2) after_enable_def Let_def w1(2) after_disable_def
            cfg_of_def default_of_def with_servers_def servers_at_def)
  next
    case Disabled
    then show ?thesis using sd by simp
  qed
  show ?thesis using w1(1) w2(1) a2 l2 by blast
qed

lemma ex_colon_view:
  "view ex_colon = (\<lambda>c. None)(ClaudeFile \<mapsto> json_file (emptyObject\<lparr>projects :=
         Some [(''/p'', \<lparr>project_mcpServers = Some [(''a:b'', ex_memory)], project_other = []\<rparr>)]\<rparr>))"
  by (rule ext) (simp add: view_def ex_colon_def path_of_def path_defs split: cfgfile.splits)

lemma ex_colon_live: "live ex_colon Local (Some ''/p'') ''a:b'' = Some ex_memory"
  by (simp add: live_view ex_colon_view truthy_def project_servers_def project_at_def emptyObject_def)

lemma ex_colon_step1:
  "disableMcp ex_now ''a:b'' Local (Some ''/p'') (start ex_colon) = (ok, ex_colon_disabled)"
  "view (fs ex_colon_disabled) = (\<lambda>c. None)
     (DisabledFile \<mapsto> written ex_now (defaultDisabled\<lparr>disabled :=
         Some [(''local:/p:a:b'', archive_entry ex_now ex_memory Local (Some ''/p''))]\<rparr>),
      ClaudeFile \<mapsto> written ex_now (emptyObject\<lparr>projects :=
         Some [(''/p'', \<lparr>project_mcpServers = Some [], project_other = []\<rparr>)]\<rparr>))"
proof -
  have l: "live (fs (start ex_colon)) Local (Some ''/p'') ''a:b'' = Some ex_memory"
    by (simp add: ex_colon_live)
  have d: "disabled (read_view (view (fs (start ex_colon))) DisabledFile defaultDisabled) = Some []"
    by (simp add: ex_colon_view defaultDisabled_def)
  from disableMcp_ok[OF l d, of ex_now]
  obtain w1 where w1: "disableMcp ex_now ''a:b'' Local (Some ''/p'') (start ex_colon) = (ok, w1)"
    "view (fs w1) = after_disable ex_now Local (Some ''/p'') ''a:b'' ex_memory (view (fs (start ex_colon)))"
    by blast
  show "disableMcp ex_now ''a:b'' Local (Some ''/p'') (start ex_colon) = (ok, ex_colon_disabled)"
    using w1(1) by (simp add: ex_colon_disabled_def)
  have "view (fs ex_colon_disabled) =
      after_disable ex_now Local (Some ''/p'') ''a:b'' ex_memory (view ex_colon)"
    using w1 by (simp add: ex_colon_disabled_def)
  also have "\<dots> = (\<lambda>c. None)
     (DisabledFile \<mapsto> written ex_now (defaultDisabled\<lparr>disabled :=
         Some [(''local:/p:a:b'', archive_entry ex_now ex_memory Local (Some ''/p''))]\<rparr>),
      ClaudeFile \<mapsto> written ex_now (emptyObject\<lparr>projects :=
         Some [(''/p'', \<lparr>project_mcpServers = Some [], project_other = []\<rparr>)]\<rparr>))"
    by (rule ext)
       (simp add: after_disable_def Let_def ex_colon_view cfg_of_def default_of_def
          with_servers_def servers_at_def archive_key_def defaultDisabled_def
          set_project_servers_def project_servers_def project_at_def emptyObject_def)
  finally show "view (fs ex_colon_disabled) = (\<lambda>c. None)
     (DisabledFile \<mapsto> written ex_now (defaultDisabled\<lparr>disabled :=
         Some [(''local:/p:a:b'', archive_entry ex_now ex_memory Local (Some ''/p''))]\<rparr>),
      ClaudeFile \<mapsto> written ex_now (emptyObject\<lparr>projects :=
         Some [(''/p'', \<lparr>project_mcpServers = Some [], project_other = []\<rparr>)]\<rparr>))" .
qed

lemma ex_colon_name: "restored_name Local ''local:/p:a:b'' = ''b''"
  by (simp add: restored_name_def last_segment_def)

subsection \<open>Retention of backups\<close>

lemma update_fresh: "k \<notin> fst ` set al \<Longrightarrow> AList.update k v al = al @ [(k, v)]"
  by (induction al) auto

lemma in_dir_name:
  "prefix (dir @ ''/'') (path_join dir n)" "drop (Suc (length dir)) (path_join dir n) = n"
  by (simp_all add: path_join_def)

lemma readdirSync_append:
  "readdirSync (m @ m') dir = readdirSync m dir @ readdirSync m' dir"
  by (simp add: readdirSync_def)

lemma readdirSync_single:
  "CHR ''/'' \<notin> set n \<Longrightarrow> readdirSync [(path_join dir n, v)] dir = [n]"
  by (simp add: readdirSync_def path_join_def)

lemma in_dir_eq:
  "prefix (dir @ ''/'') q \<Longrightarrow> path_join dir (drop (Suc (length dir)) q) = q"
  by (auto simp: prefix_def path_join_def)

lemma readdirSync_Cons:
  "readdirSync ((q, v) # m) dir =
     (if prefix (dir @ ''/'') q \<and> CHR ''/'' \<notin> set (drop (Suc (length dir)) q)
      then drop (Suc (length dir)) q # readdirSync m dir else readdirSync m dir)"
  by (simp add: readdirSync_def)

lemma readdirSync_Nil [simp]: "readdirSync [] dir = []"
  by (simp add: readdirSync_def)

lemma readdirSync_delete:
  "readdirSync (AList.delete (path_join dir n) m) dir = filter (\<lambda>x. x \<noteq> n) (readdirSync m dir)"
proof (induction m)
  case Nil
  show ?case by simp
next
  case (Cons e m)
  obtain q v where e: "e = (q, v)" by (cases e)
  show ?case
  proof (cases "q = path_join dir n")
    case True
    then show ?thesis using Cons e
      by (simp add: delete_simps readdirSync_Cons in_dir_name)
  next
    case False
    have "drop (Suc (length dir)) q \<noteq> n" if "prefix (dir @ ''/'') q"
      using in_dir_eq[OF that] False by auto
    then show ?thesis using Cons e False
      by (simp add: delete_simps readdirSync_Cons)
  qed
qed

lemma readdirSync_mem:
  "n \<in> set (readdirSync m dir) \<Longrightarrow> path_join dir n \<in> fst ` set m"
proof (induction m)
  case Nil
  then show ?case by simp
next
  case (Cons e m)
  obtain q v where e: "e = (q, v)" by (cases e)
  show ?case
  proof (cases "n \<in> set (readdirSync m dir)")
    case True
    then show ?thesis using Cons.IH by simp
  next
    case False
    then have "prefix (dir @ ''/'') q" "n = drop (Suc (length dir)) q"
      using Cons.prems e by (auto simp: readdirSync_Cons split: if_splits)
    then have "path_join dir n = q" using in_dir_eq by simp
    then show ?thesis using e by simp
  qed
qed

lemma mem_readdirSync:
  "path_join dir n \<in> fst ` set m \<Longrightarrow> CHR ''/'' \<notin> set n \<Longrightarrow> n \<in> set (readdirSync m dir)"
proof (induction m)
  case Nil
  then show ?case by simp
next
  case (Cons e m)
  obtain q v where e: "e = (q, v)" by (cases e)
  show ?case
  proof (cases "q = path_join dir n")
    case True
    then show ?thesis using e Cons.prems(2) by (simp add: readdirSync_Cons in_dir_name)
  next
    case False
    then have "path_join dir n \<in> fst ` set m" using Cons.prems(1) e by auto
    from Cons.IH[OF this Cons.prems(2)] show ?thesis using e by (simp add: readdirSync_Cons)
  qed
qed

lemma stamp_no_dot: "CHR ''.'' \<notin> set (stamp r)"
  by (auto simp: stamp_def)

lemma stamp_length: "length (stamp r) = length (iso r)"
  by (simp add: stamp_def)

lemma stamp_no_slash: "CHR ''/'' \<notin> set (iso r) \<Longrightarrow> CHR ''/'' \<notin> set (stamp r)"
  by (auto simp: stamp_def)

lemma basename_no_slash: "CHR ''/'' \<notin> set (basename p)"
proof
  assume "CHR ''/'' \<in> set (basename p)"
  then have "CHR ''/'' \<in> set (takeWhile (\<lambda>c. c \<noteq> CHR ''/'') (rev p))"
    by (simp add: basename_def)
  then show False by (auto dest: set_takeWhileD)
qed

lemma not_meta_suffix:
  assumes "CHR ''.'' \<notin> set s" "5 \<le> length s"
  shows "\<not> suffix ''.meta.json'' (b @ ''.'' @ s)"
proof
  assume "suffix ''.meta.json'' (b @ ''.'' @ s)"
  then obtain ys where ys: "b @ ''.'' @ s = ys @ ''.meta.json''" by (auto simp: suffix_def)
  have "b @ ''.'' @ s = (b @ ''.'' @ take (length s - 5) s) @ drop (length s - 5) s" by simp
  moreover have "ys @ ''.meta.json'' = (ys @ ''.meta'') @ ''.json''" by simp
  moreover have "length (drop (length s - 5) s) = length ''.json''" using assms(2) by simp
  ultimately have "drop (length s - 5) s = ''.json''"
    using ys by (metis append_eq_append_conv)
  then have "CHR ''.'' \<in> set (drop (length s - 5) s)" by simp
  then have "CHR ''.'' \<in> set s" by (meson in_set_dropD)
  with assms(1) show False by simp
qed

lemma backup_name_props:
  assumes "length (iso r) = 24"
  shows "prefix (basename p @ ''.'') (backup_name r p)"
    "prefix (basename p @ ''.'') (backup_name r p @ ''.meta.json'')"
    "\<not> suffix ''.meta.json'' (backup_name r p)"
    "suffix ''.meta.json'' (backup_name r p @ ''.meta.json'')"
    "is_backup_of (basename p) (backup_name r p)"
    "\<not> is_backup_of (basename p) (backup_name r p @ ''.meta.json'')"
proof -
  show 1: "prefix (basename p @ ''.'') (backup_name r p)" by (simp add: backup_name_def)
  show "prefix (basename p @ ''.'') (backup_name r p @ ''.meta.json'')"
    by (simp add: backup_name_def)
  show 3: "\<not> suffix ''.meta.json'' (backup_name r p)"
    unfolding backup_name_def
    by (rule not_meta_suffix) (simp_all add: stamp_no_dot stamp_length assms)
  show 4: "suffix ''.meta.json'' (backup_name r p @ ''.meta.json'')" by (simp add: suffix_def)
  show "is_backup_of (basename p) (backup_name r p)" using 1 3 by (simp add: is_backup_of_def)
  show "\<not> is_backup_of (basename p) (backup_name r p @ ''.meta.json'')"
    using 4 by (simp add: is_backup_of_def)
qed

lemma backup_name_inj: "backup_name r p = backup_name r' p \<longleftrightarrow> stamp r = stamp r'"
  by (simp add: backup_name_def)

lemma backup_name_not_meta: "backup_name r p \<noteq> backup_name r' p @ ''.meta.json''"
proof
  assume "backup_name r p = backup_name r' p @ ''.meta.json''"
  then have "stamp r = stamp r' @ ''.meta.json''" by (simp add: backup_name_def)
  then have "CHR ''.'' \<in> set (stamp r)" by simp
  then show False using stamp_no_dot by blast
qed

lemma backup_name_no_slash:
  "CHR ''/'' \<notin> set (iso r) \<Longrightarrow> CHR ''/'' \<notin> set (backup_name r p)"
  "CHR ''/'' \<notin> set (iso r) \<Longrightarrow> CHR ''/'' \<notin> set (backup_name r p @ ''.meta.json'')"
  by (simp_all add: backup_name_def basename_no_slash stamp_no_slash)

lemma insert_by_front:
  "(\<And>y. y \<in> set ys \<Longrightarrow> c x y < 0) \<Longrightarrow> insert_by c x ys = x # ys"
  by (cases ys) simp_all

lemma fold_insert_by_rev:
  assumes "sorted_wrt (\<lambda>a b. c b a < 0) xs" "\<And>x y. x \<in> set xs \<Longrightarrow> y \<in> set acc \<Longrightarrow> c x y < 0"
  shows "fold (insert_by c) xs acc = rev xs @ acc"
  using assms
proof (induction xs arbitrary: acc)
  case Nil
  show ?case by simp
next
  case (Cons x xs)
  have 1: "insert_by c x acc = x # acc"
    using Cons.prems(2) by (intro insert_by_front) simp
  have 2: "sorted_wrt (\<lambda>a b. c b a < 0) xs" using Cons.prems(1) by simp
  have 3: "\<And>x' y. x' \<in> set xs \<Longrightarrow> y \<in> set (x # acc) \<Longrightarrow> c x' y < 0"
    using Cons.prems by auto
  have "fold (insert_by c) xs (x # acc) = rev xs @ (x # acc)"
  proof (rule Cons.IH)
    show "sorted_wrt (\<lambda>a b. c b a < 0) xs" by (rule 2)
    show "\<And>x' y. x' \<in> set xs \<Longrightarrow> y \<in> set (x # acc) \<Longrightarrow> c x' y < 0" by (rule 3)
  qed
  then show ?case using 1 by simp
qed

lemma sort_by_newest_first:
  assumes "sorted_wrt (\<lambda>a b. key a < key b) xs"
  shows "sort_by (\<lambda>a b. int (key b) - int (key a)) xs = rev xs"
proof -
  have "sorted_wrt (\<lambda>a b. int (key a) - int (key b) < 0) xs"
    using assms by (simp add: sorted_wrt_iff_nth_less)
  from fold_insert_by_rev[where c="\<lambda>a b. int (key b) - int (key a)" and acc="[]", OF this]
  show ?thesis by (simp add: sort_by_def)
qed

lemma backup_path_name: "backup_path r p = path_join BACKUPS_DIR (backup_name r p)"
  by (simp add: backup_path_def backup_name_def)

lemma meta_path_name:
  "backup_path r p @ ''.meta.json'' = path_join BACKUPS_DIR (backup_name r p @ ''.meta.json'')"
  by (simp add: backup_path_def backup_name_def path_join_def)

lemma blocks_snoc: "blocks (K @ [r]) p = blocks K p @ [backup_name r p, backup_name r p @ ''.meta.json'']"
  by (simp add: blocks_def)

lemma blocks_Cons: "blocks (r # K) p = backup_name r p # (backup_name r p @ ''.meta.json'') # blocks K p"
  by (simp add: blocks_def)

lemma in_blocks:
  "n \<in> set (blocks K p) \<longleftrightarrow>
     (\<exists>r\<in>set K. n = backup_name r p \<or> n = backup_name r p @ ''.meta.json'')"
  by (auto simp: blocks_def)

lemma fresh_paths:
  assumes ret: "retained p f K m" and ok: "iso_ok r"
    and new: "stamp r \<notin> stamp ` set K"
  shows "backup_path r p \<notin> fst ` set m" "backup_path r p @ ''.meta.json'' \<notin> fst ` set m"
proof -
  have ns: "CHR ''/'' \<notin> set (backup_name r p)" "CHR ''/'' \<notin> set (backup_name r p @ ''.meta.json'')"
    using ok by (simp_all add: iso_ok_def backup_name_no_slash)
  have pr: "prefix (basename p @ ''.'') (backup_name r p)"
    "prefix (basename p @ ''.'') (backup_name r p @ ''.meta.json'')"
    using ok by (simp_all add: iso_ok_def backup_name_props)
  have bl: "filter (prefix (basename p @ ''.'')) (readdirSync m BACKUPS_DIR) = blocks K p"
    using ret by (simp add: retained_def)
  show "backup_path r p \<notin> fst ` set m"
  proof
    assume "backup_path r p \<in> fst ` set m"
    then have "backup_name r p \<in> set (readdirSync m BACKUPS_DIR)"
      using ns(1) by (simp add: backup_path_name mem_readdirSync)
    then have "backup_name r p \<in> set (blocks K p)" using pr(1) bl[symmetric] by simp
    then obtain r' where "r' \<in> set K"
      "backup_name r p = backup_name r' p \<or> backup_name r p = backup_name r' p @ ''.meta.json''"
      by (auto simp: in_blocks)
    then show False using new backup_name_not_meta by (auto simp: backup_name_inj)
  qed
  show "backup_path r p @ ''.meta.json'' \<notin> fst ` set m"
  proof
    assume "backup_path r p @ ''.meta.json'' \<in> fst ` set m"
    then have "backup_name r p @ ''.meta.json'' \<in> set (readdirSync m BACKUPS_DIR)"
      using ns(2) by (simp add: meta_path_name mem_readdirSync)
    then have "backup_name r p @ ''.meta.json'' \<in> set (blocks K p)" using pr(2) bl[symmetric] by simp
    then obtain r' where "r' \<in> set K"
      "backup_name r p @ ''.meta.json'' = backup_name r' p
         \<or> backup_name r p @ ''.meta.json'' = backup_name r' p @ ''.meta.json''"
      by (auto simp: in_blocks)
    then show False using new backup_name_not_meta[of r' p r] by (auto simp: backup_name_inj)
  qed
qed

lemma retained_after_copy:
  assumes ret: "retained p f K m" and ok: "iso_ok r"
    and new: "stamp r \<notin> stamp ` set K"
    and out: "\<not> prefix (BACKUPS_DIR @ ''/'') p"
  shows "retained p f (K @ [r])
           (AList.update (backup_path r p @ ''.meta.json'') mf
              (AList.update (backup_path r p) \<lparr>content = content f, mtime = fs_mtime r\<rparr> m))"
proof -
  let ?bp = "backup_path r p" and ?mp = "backup_path r p @ ''.meta.json''"
  let ?c = "\<lparr>content = content f, mtime = fs_mtime r\<rparr>"
  note fp = fresh_paths[OF ret ok new]
  define m2 where "m2 = m @ [(?bp, ?c)] @ [(?mp, mf)]"
  have m1: "AList.update ?bp ?c m = m @ [(?bp, ?c)]" using fp(1) by (rule update_fresh)
  have "?mp \<notin> fst ` set (m @ [(?bp, ?c)])" using fp(2) by simp
  then have "AList.update ?mp mf (m @ [(?bp, ?c)]) = (m @ [(?bp, ?c)]) @ [(?mp, mf)]"
    by (rule update_fresh)
  then have upd: "AList.update ?mp mf (AList.update ?bp ?c m) = m2"
    by (simp add: m1 m2_def)
  have ns: "CHR ''/'' \<notin> set (backup_name r p)" "CHR ''/'' \<notin> set (backup_name r p @ ''.meta.json'')"
    using ok by (simp_all add: iso_ok_def backup_name_no_slash)
  have pr1: "prefix (basename p @ ''.'') (backup_name r p)"
    using ok by (simp add: iso_ok_def backup_name_props)
  have pr2: "prefix (basename p @ ''.'') (backup_name r p @ ''.meta.json'')"
    using ok by (simp add: iso_ok_def backup_name_props)
  have bl: "filter (prefix (basename p @ ''.'')) (readdirSync m BACKUPS_DIR) = blocks K p"
    using ret by (simp add: retained_def)
  have a: "readdirSync [(?bp, ?c)] BACKUPS_DIR = [backup_name r p]"
    unfolding backup_path_name using ns(1) by (rule readdirSync_single)
  have b: "readdirSync [(?mp, mf)] BACKUPS_DIR = [backup_name r p @ ''.meta.json'']"
    unfolding meta_path_name using ns(2) by (rule readdirSync_single)
  have rd: "readdirSync m2 BACKUPS_DIR =
      readdirSync m BACKUPS_DIR @ [backup_name r p] @ [backup_name r p @ ''.meta.json'']"
    unfolding m2_def by (simp only: readdirSync_append a b)
  have in1: "prefix (BACKUPS_DIR @ ''/'') ?bp"
    by (simp only: backup_path_name in_dir_name)
  have in2: "prefix (BACKUPS_DIR @ ''/'') ?mp"
    by (simp only: meta_path_name in_dir_name)
  have p_ne1: "p \<noteq> ?bp"
  proof
    assume "p = ?bp"
    with in1 have "prefix (BACKUPS_DIR @ ''/'') p" by (simp only:)
    with out show False by (rule notE)
  qed
  have p_ne2: "p \<noteq> ?mp"
  proof
    assume "p = ?mp"
    with in2 have "prefix (BACKUPS_DIR @ ''/'') p" by (simp only:)
    with out show False by (rule notE)
  qed
  have old: "map_of m ?bp = None" "map_of m ?mp = None"
    using fp by (simp_all add: map_of_eq_None_iff)
  have look: "map_of m2 q =
      (case map_of m q of Some x \<Rightarrow> Some x
       | None \<Rightarrow> if q = ?bp then Some ?c else if q = ?mp then Some mf else None)" for q
    by (simp add: m2_def map_add_def split: option.splits)
  have 1: "map_of m2 p = Some f"
    using ret p_ne1 p_ne2 by (simp add: look retained_def)
  have "filter (prefix (basename p @ ''.'')) (readdirSync m2 BACKUPS_DIR)
      = blocks K p @ [backup_name r p] @ [backup_name r p @ ''.meta.json'']"
    by (simp only: rd filter_append bl filter.simps pr1 pr2 if_True)
  then have 2: "filter (prefix (basename p @ ''.'')) (readdirSync m2 BACKUPS_DIR) = blocks (K @ [r]) p"
    by (simp add: blocks_snoc)
  have 3: "\<forall>r'\<in>set (K @ [r]). map_of m2 (backup_path r' p)
      = Some \<lparr>content = content f, mtime = fs_mtime r'\<rparr>"
  proof
    fix r' assume "r' \<in> set (K @ [r])"
    then consider "r' \<in> set K" | "r' = r" by auto
    then show "map_of m2 (backup_path r' p) = Some \<lparr>content = content f, mtime = fs_mtime r'\<rparr>"
    proof cases
      case 1
      then have "map_of m (backup_path r' p) = Some \<lparr>content = content f, mtime = fs_mtime r'\<rparr>"
        using ret by (simp add: retained_def)
      then show ?thesis by (simp add: look)
    next
      case 2
      then show ?thesis using old by (simp add: look)
    qed
  qed
  show ?thesis unfolding upd retained_def using 1 2 3 by blast
qed

lemma filter_blocks_backup:
  "\<forall>r\<in>set K. iso_ok r \<Longrightarrow>
     filter (\<lambda>f. \<not> suffix ''.meta.json'' f) (blocks K p) = map (\<lambda>r. backup_name r p) K"
  by (induction K) (simp_all add: blocks_def iso_ok_def backup_name_props)

lemma filter_blocks_sidecar:
  "\<forall>r\<in>set K. iso_ok r \<Longrightarrow>
     filter (suffix ''.meta.json'') (blocks K p) = map (\<lambda>r. backup_name r p @ ''.meta.json'') K"
  by (induction K) (simp_all add: blocks_def iso_ok_def backup_name_props)

lemma is_backup_of_fun:
  "is_backup_of b = (\<lambda>x. prefix (b @ ''.'') x \<and> \<not> suffix ''.meta.json'' x)"
  by (simp add: fun_eq_iff is_backup_of_def)

lemma stamp_fresh: "r \<in> set K \<Longrightarrow> stamp r0 \<notin> stamp ` set K \<Longrightarrow> stamp r \<noteq> stamp r0"
  by (metis imageI)

lemma outside_ne: "\<not> prefix d p \<Longrightarrow> prefix d q \<Longrightarrow> p \<noteq> q"
  by auto

lemma retained_backups_of:
  assumes "retained p f K m" "\<forall>r\<in>set K. iso_ok r"
  shows "backups_of m (basename p) = map (\<lambda>r. backup_name r p) K"
proof -
  have "backups_of m (basename p)
      = filter (\<lambda>f. \<not> suffix ''.meta.json'' f)
          (filter (prefix (basename p @ ''.'')) (readdirSync m BACKUPS_DIR))"
    by (simp add: backups_of_def is_backup_of_fun)
  also have "\<dots> = filter (\<lambda>f. \<not> suffix ''.meta.json'' f) (blocks K p)"
    using assms(1) by (simp add: retained_def)
  finally show ?thesis using assms(2) by (simp add: filter_blocks_backup)
qed

lemma retained_sidecars_of:
  assumes "retained p f K m" "\<forall>r\<in>set K. iso_ok r"
  shows "sidecars_of m (basename p) = map (\<lambda>r. backup_name r p @ ''.meta.json'') K"
proof -
  have "sidecars_of m (basename p)
      = filter (suffix ''.meta.json'')
          (filter (prefix (basename p @ ''.'')) (readdirSync m BACKUPS_DIR))"
    by (simp add: sidecars_of_def)
  also have "\<dots> = filter (suffix ''.meta.json'') (blocks K p)"
    using assms(1) by (simp add: retained_def)
  finally show ?thesis using assms(2) by (simp add: filter_blocks_sidecar)
qed

lemma retained_sorted:
  assumes ret: "retained p f K m" and srt: "sorted_wrt (<) (map fs_mtime K)"
  shows "sort_by (\<lambda>a b. int (stat_mtime m (path_join BACKUPS_DIR b))
                     - int (stat_mtime m (path_join BACKUPS_DIR a)))
           (map (\<lambda>r. backup_name r p) K) = rev (map (\<lambda>r. backup_name r p) K)"
proof -
  let ?key = "\<lambda>n. stat_mtime m (path_join BACKUPS_DIR n)"
  have key: "?key (backup_name r p) = fs_mtime r" if "r \<in> set K" for r
    using ret that by (simp add: retained_def stat_mtime_def backup_path_name[symmetric])
  have "sorted_wrt (\<lambda>a b. fs_mtime a < fs_mtime b) K"
    using srt by (simp add: sorted_wrt_map)
  then have "sorted_wrt (\<lambda>a b. ?key (backup_name a p) < ?key (backup_name b p)) K"
    by (rule sorted_wrt_mono_rel[rotated]) (simp add: key)
  then have "sorted_wrt (\<lambda>a b. ?key a < ?key b) (map (\<lambda>r. backup_name r p) K)"
    by (simp add: sorted_wrt_map)
  then show ?thesis by (rule sort_by_newest_first)
qed

lemma cleanup_retained_small:
  assumes "retained p f K (fs w)" "\<forall>r\<in>set K. iso_ok r" "length K \<le> MAX_BACKUPS"
  shows "cleanupOldBackups (basename p) w = w"
proof -
  have "filter (is_backup_of (basename p)) (readdirSync (fs w) BACKUPS_DIR)
      = map (\<lambda>r. backup_name r p) K"
    using retained_backups_of[OF assms(1,2)] by (simp add: backups_of_def)
  then show ?thesis using assms(3)
    by (simp add: cleanupOldBackups_def Let_def length_sort_by)
qed

lemma unlink_backup_fs:
  "fs (unlink_backup n w) =
     AList.delete (path_join BACKUPS_DIR n @ ''.meta.json'')
       (AList.delete (path_join BACKUPS_DIR n) (fs w))"
  by (simp add: unlink_backup_def Let_def unlinkSync_def emit_def existsSync_def
        map_of_eq_None_iff)

lemma filter_blocks_others:
  assumes "stamp r0 \<notin> stamp ` set K"
  shows "filter (\<lambda>x. x \<noteq> backup_name r0 p @ ''.meta.json'')
           (filter (\<lambda>x. x \<noteq> backup_name r0 p) (blocks K p)) = blocks K p"
proof -
  have "\<forall>x\<in>set (blocks K p). x \<noteq> backup_name r0 p \<and> x \<noteq> backup_name r0 p @ ''.meta.json''"
  proof
    fix x assume "x \<in> set (blocks K p)"
    then obtain r where r: "r \<in> set K"
      "x = backup_name r p \<or> x = backup_name r p @ ''.meta.json''"
      by (auto simp: in_blocks)
    have ne: "stamp r \<noteq> stamp r0" using r(1) assms by (rule stamp_fresh)
    show "x \<noteq> backup_name r0 p \<and> x \<noteq> backup_name r0 p @ ''.meta.json''"
      using r(2) ne backup_name_not_meta[of r p r0] backup_name_not_meta[of r0 p r]
      by (auto simp: backup_name_inj)
  qed
  then show ?thesis by (simp add: filter_id_conv)
qed

lemma cleanup_retained_drop:
  assumes ret: "retained p f (r0 # K) (fs w)"
    and ok: "\<forall>r\<in>set (r0 # K). iso_ok r"
    and srt: "sorted_wrt (<) (map fs_mtime (r0 # K))"
    and dst: "distinct (map stamp (r0 # K))"
    and len: "length K = MAX_BACKUPS"
    and out: "\<not> prefix (BACKUPS_DIR @ ''/'') p"
  shows "retained p f K (fs (cleanupOldBackups (basename p) w))"
proof -
  let ?n0 = "backup_name r0 p"
  let ?bp = "path_join BACKUPS_DIR ?n0"
  let ?mp = "path_join BACKUPS_DIR ?n0 @ ''.meta.json''"
  have names: "filter (is_backup_of (basename p)) (readdirSync (fs w) BACKUPS_DIR)
      = map (\<lambda>r. backup_name r p) (r0 # K)"
    using retained_backups_of[OF ret ok] by (simp add: backups_of_def)
  have sorted: "sort_by (\<lambda>a b. int (stat_mtime (fs w) (path_join BACKUPS_DIR b))
                     - int (stat_mtime (fs w) (path_join BACKUPS_DIR a)))
           (map (\<lambda>r. backup_name r p) (r0 # K)) = rev (map (\<lambda>r. backup_name r p) (r0 # K))"
    using ret srt by (rule retained_sorted)
  have dr: "drop MAX_BACKUPS (rev (map (\<lambda>r. backup_name r p) (r0 # K))) = [?n0]"
    using len by simp
  have "cleanupOldBackups (basename p) w = unlink_backup ?n0 w"
    unfolding cleanupOldBackups_def Let_def names sorted dr
    using len by simp
  then have fsq: "fs (cleanupOldBackups (basename p) w) = AList.delete ?mp (AList.delete ?bp (fs w))"
    by (simp add: unlink_backup_fs)
  have in1: "prefix (BACKUPS_DIR @ ''/'') ?bp" by (simp only: in_dir_name)
  have in2: "prefix (BACKUPS_DIR @ ''/'') ?mp"
    using meta_path_name[of r0 p] in_dir_name(1)[of BACKUPS_DIR "?n0 @ ''.meta.json''"]
    by (simp add: backup_path_name)
  have p_ne: "p \<noteq> ?bp" "p \<noteq> ?mp"
    using outside_ne[OF out in1] outside_ne[OF out in2] by - assumption+
  have 1: "map_of (AList.delete ?mp (AList.delete ?bp (fs w))) p = Some f"
    using ret p_ne by (simp add: delete_conv' retained_def)
  have new: "stamp r0 \<notin> stamp ` set K" using dst by auto
  have mpn: "?mp = path_join BACKUPS_DIR (?n0 @ ''.meta.json'')"
    by (simp add: path_join_def)
  have "filter (prefix (basename p @ ''.''))
          (readdirSync (AList.delete ?mp (AList.delete ?bp (fs w))) BACKUPS_DIR)
      = filter (\<lambda>x. x \<noteq> ?n0 @ ''.meta.json'') (filter (\<lambda>x. x \<noteq> ?n0)
          (filter (prefix (basename p @ ''.'')) (readdirSync (fs w) BACKUPS_DIR)))"
    unfolding mpn readdirSync_delete by (auto intro: filter_cong)
  also have "\<dots> = filter (\<lambda>x. x \<noteq> ?n0 @ ''.meta.json'') (filter (\<lambda>x. x \<noteq> ?n0) (blocks (r0 # K) p))"
    using ret by (simp add: retained_def)
  also have "\<dots> = filter (\<lambda>x. x \<noteq> ?n0 @ ''.meta.json'') (filter (\<lambda>x. x \<noteq> ?n0) (blocks K p))"
    by (simp add: blocks_Cons)
  also have "\<dots> = blocks K p" using new by (rule filter_blocks_others)
  finally have 2: "filter (prefix (basename p @ ''.''))
          (readdirSync (AList.delete ?mp (AList.delete ?bp (fs w))) BACKUPS_DIR) = blocks K p" .
  have 3: "\<forall>r\<in>set K. map_of (AList.delete ?mp (AList.delete ?bp (fs w))) (backup_path r p)
      = Some \<lparr>content = content f, mtime = fs_mtime r\<rparr>"
  proof
    fix r assume r: "r \<in> set K"
    have ne: "stamp r \<noteq> stamp r0" using r new by (rule stamp_fresh)
    have "backup_name r p \<noteq> ?n0" using ne by (simp add: backup_name_inj)
    then have a: "backup_path r p \<noteq> ?bp" by (simp add: backup_path_name path_join_def)
    have "backup_name r p \<noteq> ?n0 @ ''.meta.json''" by (rule backup_name_not_meta)
    then have b: "backup_path r p \<noteq> ?mp" by (simp add: backup_path_name path_join_def)
    show "map_of (AList.delete ?mp (AList.delete ?bp (fs w))) (backup_path r p)
      = Some \<lparr>content = content f, mtime = fs_mtime r\<rparr>"
      using ret r a b by (simp add: delete_conv' retained_def)
  qed
  show ?thesis unfolding fsq retained_def using 1 2 3 by blast
qed

lemma newest_snoc: "newest n (newest n xs @ [x]) = newest n (xs @ [x])"
proof -
  have "Suc (length xs) - (length xs - n + n) + (length xs - n) = Suc (length xs) - n"
    by arith
  then show ?thesis by (simp add: newest_def)
qed

lemma length_newest: "length (newest n xs) \<le> n"
  by (simp add: newest_def)

lemma newest_append: "newest n xs @ [x] = drop (length xs - n) (xs @ [x])"
  by (simp add: newest_def)

lemma createBackup_steps:
  assumes "map_of (fs w) p = Some f"
  shows "\<exists>w2. snd (createBackup r p d w) = cleanupOldBackups (basename p) w2
     \<and> fs w2 = AList.update (backup_path r p @ ''.meta.json'')
                 \<lparr>content = Json (emptyObject\<lparr>originalPath := Some p, timestamp := Some (iso r),
                        description := Some (backup_description d)\<rparr>), mtime = fs_mtime r\<rparr>
                 (AList.update (backup_path r p) \<lparr>content = content f, mtime = fs_mtime r\<rparr> (fs w))"
proof -
  let ?meta = "Json (emptyObject\<lparr>originalPath := Some p, timestamp := Some (iso r),
                        description := Some (backup_description d)\<rparr>)"
  let ?w2 = "writeFileSync r (backup_path r p @ ''.meta.json'') ?meta
               (copyFileSync r p (backup_path r p) w)"
  have "snd (createBackup r p d w) = cleanupOldBackups (basename p) ?w2"
    using assms by (simp add: createBackup_def existsSync_def Let_def backup_path_def)
  moreover have "fs ?w2 = AList.update (backup_path r p @ ''.meta.json'')
                 \<lparr>content = ?meta, mtime = fs_mtime r\<rparr>
                 (AList.update (backup_path r p) \<lparr>content = content f, mtime = fs_mtime r\<rparr> (fs w))"
    using assms by (simp add: copyFileSync_def writeFileSync_def emit_def)
  ultimately show ?thesis by blast
qed

lemma createBackup_retained:
  assumes ret: "retained p f K (fs w)"
    and ok: "\<forall>r'\<in>set (K @ [r]). iso_ok r'"
    and srt: "sorted_wrt (<) (map fs_mtime (K @ [r]))"
    and dst: "distinct (map stamp (K @ [r]))"
    and len: "length K \<le> MAX_BACKUPS"
    and out: "\<not> prefix (BACKUPS_DIR @ ''/'') p"
  shows "retained p f (newest MAX_BACKUPS (K @ [r])) (fs (snd (createBackup r p d w)))"
proof -
  have pf: "map_of (fs w) p = Some f" using ret by (simp add: retained_def)
  from createBackup_steps[OF pf, of r d] obtain w2 where
    cb: "snd (createBackup r p d w) = cleanupOldBackups (basename p) w2"
    and w2: "fs w2 = AList.update (backup_path r p @ ''.meta.json'')
                 \<lparr>content = Json (emptyObject\<lparr>originalPath := Some p, timestamp := Some (iso r),
                        description := Some (backup_description d)\<rparr>), mtime = fs_mtime r\<rparr>
                 (AList.update (backup_path r p) \<lparr>content = content f, mtime = fs_mtime r\<rparr> (fs w))"
    by blast
  have okr: "iso_ok r" using ok by simp
  have new: "stamp r \<notin> stamp ` set K" using dst by auto
  have r2: "retained p f (K @ [r]) (fs w2)"
    unfolding w2 using ret okr new out by (rule retained_after_copy)
  show ?thesis
  proof (cases "length K < MAX_BACKUPS")
    case True
    then have n: "newest MAX_BACKUPS (K @ [r]) = K @ [r]" by (simp add: newest_def)
    have "length (K @ [r]) \<le> MAX_BACKUPS" using True by simp
    with r2 ok have "cleanupOldBackups (basename p) w2 = w2"
      by (rule cleanup_retained_small)
    then show ?thesis using r2 by (simp add: cb n)
  next
    case False
    then have l: "length K = MAX_BACKUPS" using len by simp
    then obtain r0 K' where K: "K = r0 # K'" by (cases K) (simp_all add: MAX_BACKUPS_def)
    have n: "newest MAX_BACKUPS (K @ [r]) = K' @ [r]" using l by (simp add: newest_def K)
    have l': "length (K' @ [r]) = MAX_BACKUPS" using l by (simp add: K)
    have "retained p f (K' @ [r]) (fs (cleanupOldBackups (basename p) w2))"
      using r2 ok srt dst l' out unfolding K append_Cons by (rule cleanup_retained_drop)
    then show ?thesis by (simp add: cb n)
  qed
qed

lemma snapshots_snoc:
  "snapshots (rs @ [r]) p d w = snd (createBackup r p d (snapshots rs p d w))"
  by (simp add: snapshots_def)

lemma snapshots_retained:
  assumes "retained p f [] m0"
    and "\<forall>r\<in>set rs. iso_ok r"
    and "sorted_wrt (<) (map fs_mtime rs)"
    and "distinct (map stamp rs)"
    and out: "\<not> prefix (BACKUPS_DIR @ ''/'') p"
  shows "retained p f (newest MAX_BACKUPS rs) (fs (snapshots rs p d (start m0)))"
  using assms(1-4)
proof (induction rs rule: rev_induct)
  case Nil
  then show ?case by (simp add: snapshots_def newest_def start_def)
next
  case (snoc r rs)
  let ?K = "newest MAX_BACKUPS rs"
  have ih: "retained p f ?K (fs (snapshots rs p d (start m0)))"
    using snoc by (simp add: sorted_wrt_append)
  have sub: "set (?K @ [r]) \<subseteq> set (rs @ [r])"
    using set_drop_subset[of "length rs - MAX_BACKUPS" rs] by (auto simp: newest_def)
  have ok: "\<forall>r'\<in>set (?K @ [r]). iso_ok r'" using snoc.prems(2) sub by blast
  have srt: "sorted_wrt (<) (map fs_mtime (?K @ [r]))"
    unfolding newest_append drop_map[symmetric] using snoc.prems(3) by (rule sorted_wrt_drop)
  have dst: "distinct (map stamp (?K @ [r]))"
    unfolding newest_append drop_map[symmetric] using snoc.prems(4) by (rule distinct_drop)
  have "retained p f (newest MAX_BACKUPS (?K @ [r]))
          (fs (snd (createBackup r p d (snapshots rs p d (start m0)))))"
    using ih ok srt dst length_newest out by (rule createBackup_retained)
  then show ?case by (simp only: newest_snoc snapshots_snoc)
qed

lemma snapshots_keep_newest:
  assumes ex: "map_of m0 p = Some f"
    and out: "\<not> prefix (BACKUPS_DIR @ ''/'') p"
    and none: "filter (prefix (basename p @ ''.'')) (readdirSync m0 BACKUPS_DIR) = []"
    and srt: "sorted_wrt (<) (map fs_mtime rs)"
    and dst: "distinct (map stamp rs)"
    and ok: "\<forall>r\<in>set rs. iso_ok r"
  shows "backups_of (fs (snapshots rs p d (start m0))) (basename p)
           = map (\<lambda>r. backup_name r p) (newest MAX_BACKUPS rs)"
    and "sidecars_of (fs (snapshots rs p d (start m0))) (basename p)
           = map (\<lambda>r. backup_name r p @ ''.meta.json'') (newest MAX_BACKUPS rs)"
    and "\<forall>r\<in>set (newest MAX_BACKUPS rs).
           map_of (fs (snapshots rs p d (start m0))) (backup_path r p)
             = Some \<lparr>content = content f, mtime = fs_mtime r\<rparr>"
proof -
  have r0: "retained p f [] m0" using ex none by (simp add: retained_def blocks_def)
  have ret: "retained p f (newest MAX_BACKUPS rs) (fs (snapshots rs p d (start m0)))"
    using r0 ok srt dst out by (rule snapshots_retained)
  have ok': "\<forall>r\<in>set (newest MAX_BACKUPS rs). iso_ok r"
    using ok set_drop_subset[of "length rs - MAX_BACKUPS" rs] by (auto simp: newest_def)
  show "backups_of (fs (snapshots rs p d (start m0))) (basename p)
           = map (\<lambda>r. backup_name r p) (newest MAX_BACKUPS rs)"
    using ret ok' by (rule retained_backups_of)
  show "sidecars_of (fs (snapshots rs p d (start m0))) (basename p)
           = map (\<lambda>r. backup_name r p @ ''.meta.json'') (newest MAX_BACKUPS rs)"
    using ret ok' by (rule retained_sidecars_of)
  show "\<forall>r\<in>set (newest MAX_BACKUPS rs).
           map_of (fs (snapshots rs p d (start m0))) (backup_path r p)
             = Some \<lparr>content = content f, mtime = fs_mtime r\<rparr>"
    using ret by (simp add: retained_def)
qed

lemma ex_ticks_length: "length ex_ticks = MAX_BACKUPS + 5"
  by (simp add: ex_ticks_def MAX_BACKUPS_def)

lemma ex_ticks_sorted: "sorted_wrt (<) (map fs_mtime ex_ticks)"
  by (simp add: ex_ticks_def ex_tick_def)

lemma ex_ticks_distinct: "distinct (map stamp ex_ticks)"
  by (simp add: ex_ticks_def ex_tick_def stamp_def)

lemma ex_ticks_iso_ok: "\<forall>r\<in>set ex_ticks. iso_ok r"
  by (simp add: ex_ticks_def ex_tick_def iso_ok_def)

lemma ex_active_file:
  "map_of ex_active CLAUDE_JSON_PATH = Some (json_file (emptyObject\<lparr>mcpServers :=
      Some [(''playwright'', ex_playwright), (''memory'', ex_memory)]\<rparr>))"
  by (simp add: ex_active_def)

lemma claude_json_outside: "\<not> prefix (BACKUPS_DIR @ ''/'') CLAUDE_JSON_PATH"
  by (simp add: path_defs)

lemma ex_active_no_backups:
  "filter (prefix (basename CLAUDE_JSON_PATH @ ''.'')) (readdirSync ex_active BACKUPS_DIR) = []"
  by (simp add: ex_active_def readdirSync_Cons claude_json_outside)

lemma ex_now_iso_ok: "iso_ok ex_now"
  by (simp add: ex_now_def iso_ok_def)

lemma createBackup_small_fs:
  assumes "map_of (fs w) p = Some f" "length (fs w) + 2 \<le> MAX_BACKUPS"
  shows "fs (snd (createBackup r p d w)) = snapshot_files r p d f (fs w)"
  using assms
  by (simp add: createBackup_small snapshot_files_def sidecar_def copyFileSync_def
        writeFileSync_def emit_def)

lemma snapshot_files_props:
  assumes "map_of m p = Some f" "\<not> prefix (BACKUPS_DIR @ ''/'') p"
  shows "map_of (snapshot_files r p d f m) p = Some f"
    and "length (snapshot_files r p d f m) \<le> length m + 2"
    and "snapshot_files r p d f (snapshot_files r p d f m) = snapshot_files r p d f m"
proof -
  let ?bp = "backup_path r p" and ?mp = "backup_path r p @ ''.meta.json''"
  have in1: "prefix (BACKUPS_DIR @ ''/'') ?bp"
    by (simp only: backup_path_name in_dir_name)
  have in2: "prefix (BACKUPS_DIR @ ''/'') ?mp"
    by (simp only: meta_path_name in_dir_name)
  have ne: "p \<noteq> ?bp" "p \<noteq> ?mp"
    using outside_ne[OF assms(2) in1] outside_ne[OF assms(2) in2] by - assumption+
  show "map_of (snapshot_files r p d f m) p = Some f"
    using assms(1) ne by (simp add: snapshot_files_def update_conv')
  have "length (AList.update ?bp \<lparr>content = content f, mtime = fs_mtime r\<rparr> m) \<le> Suc (length m)"
    by (rule length_update_le)
  moreover have "length (snapshot_files r p d f m)
      \<le> Suc (length (AList.update ?bp \<lparr>content = content f, mtime = fs_mtime r\<rparr> m))"
    unfolding snapshot_files_def by (rule length_update_le)
  ultimately show "length (snapshot_files r p d f m) \<le> length m + 2" by simp
  have a: "map_of (snapshot_files r p d f m) ?bp = Some \<lparr>content = content f, mtime = fs_mtime r\<rparr>"
    by (simp add: snapshot_files_def update_conv')
  have b: "map_of (snapshot_files r p d f m) ?mp = Some (sidecar r p d)"
    by (simp add: snapshot_files_def update_conv')
  have "AList.update ?bp \<lparr>content = content f, mtime = fs_mtime r\<rparr> (snapshot_files r p d f m)
      = snapshot_files r p d f m"
    using a by (rule update_triv)
  moreover have "AList.update ?mp (sidecar r p d) (snapshot_files r p d f m)
      = snapshot_files r p d f m"
    using b by (rule update_triv)
  ultimately show "snapshot_files r p d f (snapshot_files r p d f m) = snapshot_files r p d f m"
    by (simp add: snapshot_files_def)
qed

lemma snapshots_same_reading:
  assumes ex: "map_of m p = Some f" and out: "\<not> prefix (BACKUPS_DIR @ ''/'') p"
    and small: "length m + 4 \<le> MAX_BACKUPS"
  shows "fs (snapshots (replicate (Suc n) r) p d (start m)) = snapshot_files r p d f m"
proof (induction n)
  case 0
  have "fs (snd (createBackup r p d (start m))) = snapshot_files r p d f (fs (start m))"
    using ex small by (intro createBackup_small_fs) (simp_all add: start_def)
  then show ?case by (simp add: snapshots_def start_def)
next
  case (Suc n)
  let ?w = "snapshots (replicate (Suc n) r) p d (start m)"
  have sn: "snapshots (replicate (Suc (Suc n)) r) p d (start m) = snd (createBackup r p d ?w)"
    using snapshots_snoc[of "replicate (Suc n) r" r p d "start m"]
    by (simp only: replicate_append_same replicate_Suc[symmetric])
  have 1: "map_of (fs ?w) p = Some f"
    unfolding Suc.IH using ex out by (rule snapshot_files_props)
  have "length (fs ?w) \<le> length m + 2"
    unfolding Suc.IH using ex out by (rule snapshot_files_props)
  then have 2: "length (fs ?w) + 2 \<le> MAX_BACKUPS" using small by simp
  have "fs (snd (createBackup r p d ?w)) = snapshot_files r p d f (fs ?w)"
    using 1 2 by (rule createBackup_small_fs)
  also have "\<dots> = snapshot_files r p d f m"
    unfolding Suc.IH using ex out by (rule snapshot_files_props)
  finally show ?case by (simp only: sn)
qed

lemma snapshot_files_retained:
  assumes "map_of m p = Some f" "\<not> prefix (BACKUPS_DIR @ ''/'') p"
    and "filter (prefix (basename p @ ''.'')) (readdirSync m BACKUPS_DIR) = []"
    and "iso_ok r"
  shows "retained p f [r] (snapshot_files r p d f m)"
proof -
  have r0: "retained p f [] m" using assms(1,3) by (simp add: retained_def blocks_def)
  have "retained p f ([] @ [r]) (snapshot_files r p d f m)"
    unfolding snapshot_files_def using r0 assms(4) _ assms(2)
    by (rule retained_after_copy) simp
  then show ?thesis by simp
qed

lemma ex_same_millisecond_retained:
  "retained CLAUDE_JSON_PATH
     (json_file (emptyObject\<lparr>mcpServers := Some [(''playwright'', ex_playwright), (''memory'', ex_memory)]\<rparr>))
     [ex_now] ex_same_millisecond"
proof -
  have "length ex_active + 4 \<le> MAX_BACKUPS" by (simp add: ex_active_def MAX_BACKUPS_def)
  with ex_active_file claude_json_outside
  have "fs (snapshots (replicate (Suc 14) ex_now) CLAUDE_JSON_PATH None (start ex_active))
      = snapshot_files ex_now CLAUDE_JSON_PATH None
          (json_file (emptyObject\<lparr>mcpServers := Some [(''playwright'', ex_playwright), (''memory'', ex_memory)]\<rparr>))
          ex_active"
    by (rule snapshots_same_reading)
  then have "ex_same_millisecond = snapshot_files ex_now CLAUDE_JSON_PATH None
          (json_file (emptyObject\<lparr>mcpServers := Some [(''playwright'', ex_playwright), (''memory'', ex_memory)]\<rparr>))
          ex_active"
    by (simp add: ex_same_millisecond_def MAX_BACKUPS_def)
  then show ?thesis
    using snapshot_files_retained[OF ex_active_file claude_json_outside ex_active_no_backups
        ex_now_iso_ok, where d = None]
    by (simp only:)
qed

lemma drop_newest: "length rs = MAX_BACKUPS + 5 \<Longrightarrow> newest MAX_BACKUPS rs = drop 5 rs"
  by (simp add: newest_def)

subsection \<open>Retention when modification times tie\<close>

lemma insert_by_back:
  "(\<And>y. y \<in> set ys \<Longrightarrow> \<not> c x y < 0) \<Longrightarrow> insert_by c x ys = ys @ [x]"
  by (induction ys) simp_all

lemma fold_insert_by_ties:
  assumes "\<And>a b. a \<in> set xs \<Longrightarrow> b \<in> set xs \<union> set acc \<Longrightarrow> \<not> c a b < 0"
  shows "fold (insert_by c) xs acc = acc @ xs"
  using assms
proof (induction xs arbitrary: acc)
  case Nil
  show ?case by simp
next
  case (Cons x xs)
  have 1: "insert_by c x acc = acc @ [x]"
    by (rule insert_by_back) (simp add: Cons.prems)
  have "fold (insert_by c) xs (acc @ [x]) = (acc @ [x]) @ xs"
  proof (rule Cons.IH)
    fix a b assume "a \<in> set xs" "b \<in> set xs \<union> set (acc @ [x])"
    then show "\<not> c a b < 0" using Cons.prems[of a b] by auto
  qed
  then show ?case by (simp add: 1)
qed

lemma sort_by_ties:
  "(\<And>a b. a \<in> set xs \<Longrightarrow> b \<in> set xs \<Longrightarrow> \<not> c a b < 0) \<Longrightarrow> sort_by c xs = xs"
  unfolding sort_by_def using fold_insert_by_ties[of xs "[]" c] by simp

lemma retained_tied:
  assumes ret: "retained p f K m" and tie: "\<forall>r\<in>set K. fs_mtime r = t"
  shows "sort_by (\<lambda>a b. int (stat_mtime m (path_join BACKUPS_DIR b))
                     - int (stat_mtime m (path_join BACKUPS_DIR a)))
           (map (\<lambda>r. backup_name r p) K) = map (\<lambda>r. backup_name r p) K"
proof (rule sort_by_ties)
  fix a b assume "a \<in> set (map (\<lambda>r. backup_name r p) K)" "b \<in> set (map (\<lambda>r. backup_name r p) K)"
  then obtain ra rb where ra: "ra \<in> set K" "a = backup_name ra p"
    and rb: "rb \<in> set K" "b = backup_name rb p" by auto
  have key: "stat_mtime m (path_join BACKUPS_DIR (backup_name r p)) = t" if "r \<in> set K" for r
    using ret tie that by (simp add: retained_def stat_mtime_def backup_path_name[symmetric])
  show "\<not> int (stat_mtime m (path_join BACKUPS_DIR b))
           - int (stat_mtime m (path_join BACKUPS_DIR a)) < 0"
    by (simp add: ra rb key)
qed

lemma filter_blocks_last:
  assumes "stamp r \<notin> stamp ` set K"
  shows "filter (\<lambda>x. x \<noteq> backup_name r p @ ''.meta.json'')
           (filter (\<lambda>x. x \<noteq> backup_name r p) (blocks (K @ [r]) p)) = blocks K p"
  using filter_blocks_others[OF assms, of p] by (simp add: blocks_snoc)

lemma cleanup_tied_drop:
  assumes ret: "retained p f (K @ [r]) (fs w)"
    and ok: "\<forall>r'\<in>set (K @ [r]). iso_ok r'"
    and tie: "\<forall>r'\<in>set (K @ [r]). fs_mtime r' = t"
    and dst: "distinct (map stamp (K @ [r]))"
    and len: "length K = MAX_BACKUPS"
    and out: "\<not> prefix (BACKUPS_DIR @ ''/'') p"
  shows "retained p f K (fs (cleanupOldBackups (basename p) w))"
proof -
  let ?n0 = "backup_name r p"
  let ?bp = "path_join BACKUPS_DIR ?n0"
  let ?mp = "path_join BACKUPS_DIR ?n0 @ ''.meta.json''"
  have names: "filter (is_backup_of (basename p)) (readdirSync (fs w) BACKUPS_DIR)
      = map (\<lambda>r. backup_name r p) (K @ [r])"
    using retained_backups_of[OF ret ok] by (simp add: backups_of_def)
  have sorted: "sort_by (\<lambda>a b. int (stat_mtime (fs w) (path_join BACKUPS_DIR b))
                     - int (stat_mtime (fs w) (path_join BACKUPS_DIR a)))
           (map (\<lambda>r. backup_name r p) (K @ [r])) = map (\<lambda>r. backup_name r p) (K @ [r])"
    using ret tie by (rule retained_tied)
  have dr: "drop MAX_BACKUPS (map (\<lambda>r. backup_name r p) (K @ [r])) = [?n0]"
    using len by simp
  have "cleanupOldBackups (basename p) w = unlink_backup ?n0 w"
    unfolding cleanupOldBackups_def Let_def names sorted dr
    using len by simp
  then have fsq: "fs (cleanupOldBackups (basename p) w) = AList.delete ?mp (AList.delete ?bp (fs w))"
    by (simp add: unlink_backup_fs)
  have in1: "prefix (BACKUPS_DIR @ ''/'') ?bp" by (simp only: in_dir_name)
  have in2: "prefix (BACKUPS_DIR @ ''/'') ?mp"
    using meta_path_name[of r p] in_dir_name(1)[of BACKUPS_DIR "?n0 @ ''.meta.json''"]
    by (simp add: backup_path_name)
  have p_ne: "p \<noteq> ?bp" "p \<noteq> ?mp"
    using outside_ne[OF out in1] outside_ne[OF out in2] by - assumption+
  have 1: "map_of (AList.delete ?mp (AList.delete ?bp (fs w))) p = Some f"
    using ret p_ne by (simp add: delete_conv' retained_def)
  have new: "stamp r \<notin> stamp ` set K" using dst by auto
  have mpn: "?mp = path_join BACKUPS_DIR (?n0 @ ''.meta.json'')"
    by (simp add: path_join_def)
  have "filter (prefix (basename p @ ''.''))
          (readdirSync (AList.delete ?mp (AList.delete ?bp (fs w))) BACKUPS_DIR)
      = filter (\<lambda>x. x \<noteq> ?n0 @ ''.meta.json'') (filter (\<lambda>x. x \<noteq> ?n0)
          (filter (prefix (basename p @ ''.'')) (readdirSync (fs w) BACKUPS_DIR)))"
    unfolding mpn readdirSync_delete by (auto intro: filter_cong)
  also have "\<dots> = filter (\<lambda>x. x \<noteq> ?n0 @ ''.meta.json'') (filter (\<lambda>x. x \<noteq> ?n0) (blocks (K @ [r]) p))"
    using ret by (simp add: retained_def)
  also have "\<dots> = blocks K p" using new by (rule filter_blocks_last)
  finally have 2: "filter (prefix (basename p @ ''.''))
          (readdirSync (AList.delete ?mp (AList.delete ?bp (fs w))) BACKUPS_DIR) = blocks K p" .
  have 3: "\<forall>r'\<in>set K. map_of (AList.delete ?mp (AList.delete ?bp (fs w))) (backup_path r' p)
      = Some \<lparr>content = content f, mtime = fs_mtime r'\<rparr>"
  proof
    fix r' assume r: "r' \<in> set K"
    have ne: "stamp r' \<noteq> stamp r" using r new by (rule stamp_fresh)
    have "backup_name r' p \<noteq> ?n0" using ne by (simp add: backup_name_inj)
    then have a: "backup_path r' p \<noteq> ?bp" by (simp add: backup_path_name path_join_def)
    have "backup_name r' p \<noteq> ?n0 @ ''.meta.json''" by (rule backup_name_not_meta)
    then have b: "backup_path r' p \<noteq> ?mp" by (simp add: backup_path_name path_join_def)
    show "map_of (AList.delete ?mp (AList.delete ?bp (fs w))) (backup_path r' p)
      = Some \<lparr>content = content f, mtime = fs_mtime r'\<rparr>"
      using ret r a b by (simp add: delete_conv' retained_def)
  qed
  show ?thesis unfolding fsq retained_def using 1 2 3 by blast
qed

lemma createBackup_tied:
  assumes ret: "retained p f K (fs w)"
    and ok: "\<forall>r'\<in>set (K @ [r]). iso_ok r'"
    and tie: "\<forall>r'\<in>set (K @ [r]). fs_mtime r' = t"
    and dst: "distinct (map stamp (K @ [r]))"
    and len: "length K \<le> MAX_BACKUPS"
    and out: "\<not> prefix (BACKUPS_DIR @ ''/'') p"
  shows "retained p f (take MAX_BACKUPS (K @ [r])) (fs (snd (createBackup r p d w)))"
proof -
  have pf: "map_of (fs w) p = Some f" using ret by (simp add: retained_def)
  from createBackup_steps[OF pf, of r d] obtain w2 where
    cb: "snd (createBackup r p d w) = cleanupOldBackups (basename p) w2"
    and w2: "fs w2 = AList.update (backup_path r p @ ''.meta.json'')
                 \<lparr>content = Json (emptyObject\<lparr>originalPath := Some p, timestamp := Some (iso r),
                        description := Some (backup_description d)\<rparr>), mtime = fs_mtime r\<rparr>
                 (AList.update (backup_path r p) \<lparr>content = content f, mtime = fs_mtime r\<rparr> (fs w))"
    by blast
  have okr: "iso_ok r" using ok by simp
  have new: "stamp r \<notin> stamp ` set K" using dst by auto
  have r2: "retained p f (K @ [r]) (fs w2)"
    unfolding w2 using ret okr new out by (rule retained_after_copy)
  show ?thesis
  proof (cases "length K < MAX_BACKUPS")
    case True
    then have n: "take MAX_BACKUPS (K @ [r]) = K @ [r]" by simp
    have "length (K @ [r]) \<le> MAX_BACKUPS" using True by simp
    with r2 ok have "cleanupOldBackups (basename p) w2 = w2"
      by (rule cleanup_retained_small)
    then show ?thesis using r2 by (simp only: cb n)
  next
    case False
    then have l: "length K = MAX_BACKUPS" using len by simp
    then have n: "take MAX_BACKUPS (K @ [r]) = K" by simp
    have "retained p f K (fs (cleanupOldBackups (basename p) w2))"
      using r2 ok tie dst l out by (rule cleanup_tied_drop)
    then show ?thesis by (simp only: cb n)
  qed
qed

lemma take_take_snoc: "take n (take n xs @ [x]) = take n (xs @ [x])"
  by (cases "length xs < n") simp_all

lemma snapshots_tied:
  assumes "retained p f [] m0"
    and "\<forall>r\<in>set rs. iso_ok r"
    and "\<forall>r\<in>set rs. fs_mtime r = t"
    and "distinct (map stamp rs)"
    and out: "\<not> prefix (BACKUPS_DIR @ ''/'') p"
  shows "retained p f (take MAX_BACKUPS rs) (fs (snapshots rs p d (start m0)))"
  using assms(1-4)
proof (induction rs rule: rev_induct)
  case Nil
  then show ?case by (simp add: snapshots_def start_def)
next
  case (snoc r rs)
  let ?K = "take MAX_BACKUPS rs"
  have ih: "retained p f ?K (fs (snapshots rs p d (start m0)))"
    using snoc by simp
  have sub: "set (?K @ [r]) \<subseteq> set (rs @ [r])"
    using set_take_subset[of MAX_BACKUPS rs] by auto
  have ok: "\<forall>r'\<in>set (?K @ [r]). iso_ok r'" using snoc.prems(2) sub by blast
  have tie: "\<forall>r'\<in>set (?K @ [r]). fs_mtime r' = t" using snoc.prems(3) sub by blast
  have "distinct (map stamp (take MAX_BACKUPS (rs @ [r])))"
    unfolding take_map[symmetric] using snoc.prems(4) by (rule distinct_take)
  have d1: "distinct (map stamp rs)" "stamp r \<notin> stamp ` set rs" using snoc.prems(4) by auto
  have "distinct (map stamp ?K)" unfolding take_map[symmetric] using d1(1) by (rule distinct_take)
  moreover have "stamp r \<notin> stamp ` set ?K" using d1(2) set_take_subset[of MAX_BACKUPS rs] by auto
  ultimately have dst: "distinct (map stamp (?K @ [r]))" by simp
  have len: "length ?K \<le> MAX_BACKUPS" by simp
  have "retained p f (take MAX_BACKUPS (?K @ [r]))
          (fs (snd (createBackup r p d (snapshots rs p d (start m0)))))"
    using ih ok tie dst len out by (rule createBackup_tied)
  then show ?case by (simp only: take_take_snoc snapshots_snoc)
qed

lemma ex_tied_facts:
  "\<forall>r\<in>set ex_tied. iso_ok r"
  "\<forall>r\<in>set ex_tied. fs_mtime r = 1735689600000"
  "distinct (map stamp ex_tied)"
  "distinct (map iso ex_tied)"
  "sorted_wrt (<) (map millis ex_tied)"
  by (simp_all add: ex_tied_def ex_ticks_def ex_tick_def iso_ok_def stamp_def)

lemma ex_tied_mtime_retained:
  "retained CLAUDE_JSON_PATH
     (json_file (emptyObject\<lparr>mcpServers := Some [(''playwright'', ex_playwright), (''memory'', ex_memory)]\<rparr>))
     (take MAX_BACKUPS ex_tied) ex_tied_mtime"
proof -
  have r0: "retained CLAUDE_JSON_PATH
     (json_file (emptyObject\<lparr>mcpServers := Some [(''playwright'', ex_playwright), (''memory'', ex_memory)]\<rparr>))
     [] ex_active"
    using ex_active_file ex_active_no_backups by (simp add: retained_def blocks_def)
  show ?thesis unfolding ex_tied_mtime_def
    using r0 ex_tied_facts(1,2,3) claude_json_outside by (rule snapshots_tied)
qed

lemma ex_tied_take:
  "take MAX_BACKUPS ex_tied = map (\<lambda>r. r\<lparr>fs_mtime := 1735689600000\<rparr>) (take 10 ex_ticks)"
  by (simp add: ex_tied_def MAX_BACKUPS_def take_map)

subsection \<open>The steps of enabling\<close>

lemma active_path_cfg: "active_path src = path_of (cfg_of src)"
  by (cases src) (simp_all add: active_path_def cfg_of_def path_of_def)

lemma enableMcp_as_tail:
  assumes ar0: "archived (fs w) key = Some e"
    and free: "live (fs w) (source e) (projectPath e) (restored_name (source e) key) = None"
    and ok: "restorable (fs w) e"
  shows "\<exists>descr dl.
      disabled (read_view (view (fs w)) DisabledFile defaultDisabled) = Some dl
    \<and> enableMcp now key w =
        restore_then_unarchive now (path_of (cfg_of (source e))) descr
          (with_servers (source e) (projectPath e)
             (AList.update (restored_name (source e) key) (config e)
                (servers_at (source e) (projectPath e)
                   (read_view (view (fs w)) (cfg_of (source e)) (default_of (cfg_of (source e))))))
             (read_view (view (fs w)) (cfg_of (source e)) (default_of (cfg_of (source e)))))
          key (read_view (view (fs w)) DisabledFile defaultDisabled) dl w"
proof -
  let ?dj = "readJsonFile (fs w) MCP_DISABLED_PATH defaultDisabled"
  from ar0 obtain dl where dl: "disabled ?dj = Some dl" "map_of dl key = Some e"
    by (auto simp: archived_def split: option.splits)
  have dl': "disabled (read_view (view (fs w)) DisabledFile defaultDisabled) = Some dl"
    using dl(1) by (simp add: paths_as_cfg readJsonFile_view)
  show ?thesis
  proof (cases "source e")
    case User
    let ?j = "readJsonFile (fs w) CLAUDE_JSON_PATH emptyObject"
    let ?n = "replace_first ''user:'' [] key"
    have "map_of (servers_of ?j) ?n = None" using free User by (simp add: live_def restored_name_def)
    then have eq: "enableMcp now key w =
        restore_then_unarchive now (path_of ClaudeFile) (''Before enabling MCP: '' @ ?n)
          (?j\<lparr>mcpServers := Some (AList.update ?n (config e) (servers_of ?j))\<rparr>)
          key ?dj dl w"
      using dl User by (simp add: enableMcp_def Let_def path_of_def)
    show ?thesis
      by (rule exI[of _ "''Before enabling MCP: '' @ ?n"], rule exI[of _ dl])
         (simp add: eq User dl' cfg_of_def default_of_def with_servers_def
          servers_at_def restored_name_def paths_as_cfg readJsonFile_view)
  next
    case Local
    have t: "truthy (projectPath e)" using ok Local by (simp add: restorable_def)
    then obtain p where p: "projectPath e = Some p" by (cases "projectPath e") (auto simp: truthy_def)
    let ?j = "readJsonFile (fs w) CLAUDE_JSON_PATH emptyObject"
    let ?n = "last_segment key"
    have "map_of (project_servers ?j p) ?n = None"
      using free Local t p by (simp add: live_def restored_name_def)
    then have eq: "enableMcp now key w =
          restore_then_unarchive now (path_of ClaudeFile) (''Before enabling local MCP: '' @ ?n)
            (set_project_servers p (AList.update ?n (config e) (project_servers ?j p)) ?j)
            key ?dj dl w"
      using dl Local t p by (simp add: enableMcp_def Let_def path_of_def)
    show ?thesis
      by (rule exI[of _ "''Before enabling local MCP: '' @ ?n"], rule exI[of _ dl])
         (simp add: eq Local dl' p cfg_of_def default_of_def with_servers_def
          servers_at_def restored_name_def paths_as_cfg readJsonFile_view)
  next
    case McpJson
    let ?j = "readJsonFile (fs w) MCP_JSON_PATH defaultMcpJson"
    let ?n = "replace_first ''mcpjson:'' [] key"
    from ok McpJson obtain sv where sv: "mcpServers ?j = Some sv" by (auto simp: restorable_def)
    have "map_of sv ?n = None"
      using free McpJson sv by (simp add: live_def restored_name_def servers_of_def)
    then have eq: "enableMcp now key w =
          restore_then_unarchive now (path_of McpFile) (''Before enabling MCP: '' @ ?n)
            (?j\<lparr>mcpServers := Some (AList.update ?n (config e) sv)\<rparr>)
            key ?dj dl w"
      using dl McpJson sv by (simp add: enableMcp_def Let_def path_of_def)
    have sv': "mcpServers (read_view (view (fs w)) McpFile defaultMcpJson) = Some sv"
      using sv by (simp add: paths_as_cfg readJsonFile_view)
    show ?thesis
      by (rule exI[of _ "''Before enabling MCP: '' @ ?n"], rule exI[of _ dl])
         (simp add: eq McpJson dl' sv' cfg_of_def default_of_def with_servers_def
          servers_at_def restored_name_def paths_as_cfg readJsonFile_view servers_of_def)
  next
    case Disabled
    then show ?thesis using ok by (simp add: restorable_def)
  qed
qed

lemma enableMcp_steps:
  assumes ar0: "archived (fs w) key = Some e"
    and free: "live (fs w) (source e) (projectPath e) (restored_name (source e) key) = None"
    and ok: "restorable (fs w) e"
  shows "\<exists>pre m1 m2 m3 m4.
      enableMcp now key w =
        (ok, \<lparr>fs = m4, trace = trace w @ pre @
               [(WriteFile (active_path (source e) @ ''.tmp''), m1),
                (Rename (active_path (source e) @ ''.tmp'') (active_path (source e)), m2),
                (WriteFile (MCP_DISABLED_PATH @ ''.tmp''), m3),
                (Rename (MCP_DISABLED_PATH @ ''.tmp'') MCP_DISABLED_PATH, m4)]\<rparr>)
      \<and> (\<forall>x\<in>set pre. view (snd x) = view (fs w))
      \<and> view m1 = view (fs w)
      \<and> view m2 = (view (fs w))(cfg_of (source e) \<mapsto> written now
            (with_servers (source e) (projectPath e)
               (AList.update (restored_name (source e) key) (config e)
                  (servers_at (source e) (projectPath e)
                     (read_view (view (fs w)) (cfg_of (source e)) (default_of (cfg_of (source e))))))
               (read_view (view (fs w)) (cfg_of (source e)) (default_of (cfg_of (source e))))))
      \<and> view m3 = view m2
      \<and> view m4 = after_enable now key e (view (fs w))"
proof -
  from enableMcp_as_tail[OF assms, of now] obtain descr dl where
    dl: "disabled (read_view (view (fs w)) DisabledFile defaultDisabled) = Some dl"
    and t: "enableMcp now key w =
        restore_then_unarchive now (path_of (cfg_of (source e))) descr
          (with_servers (source e) (projectPath e)
             (AList.update (restored_name (source e) key) (config e)
                (servers_at (source e) (projectPath e)
                   (read_view (view (fs w)) (cfg_of (source e)) (default_of (cfg_of (source e))))))
             (read_view (view (fs w)) (cfg_of (source e)) (default_of (cfg_of (source e)))))
          key (read_view (view (fs w)) DisabledFile defaultDisabled) dl w"
    by blast
  let ?a' = "with_servers (source e) (projectPath e)
             (AList.update (restored_name (source e) key) (config e)
                (servers_at (source e) (projectPath e)
                   (read_view (view (fs w)) (cfg_of (source e)) (default_of (cfg_of (source e))))))
             (read_view (view (fs w)) (cfg_of (source e)) (default_of (cfg_of (source e))))"
  let ?dj = "read_view (view (fs w)) DisabledFile defaultDisabled"
  from restore_then_unarchive_steps[of now "cfg_of (source e)" descr ?a' key ?dj dl w]
  obtain pre m1 m2 m3 m4 where st:
    "restore_then_unarchive now (path_of (cfg_of (source e))) descr ?a' key ?dj dl w =
        (ok, \<lparr>fs = m4, trace = trace w @ pre @
               [(WriteFile (path_of (cfg_of (source e)) @ ''.tmp''), m1),
                (Rename (path_of (cfg_of (source e)) @ ''.tmp'') (path_of (cfg_of (source e))), m2),
                (WriteFile (MCP_DISABLED_PATH @ ''.tmp''), m3),
                (Rename (MCP_DISABLED_PATH @ ''.tmp'') MCP_DISABLED_PATH, m4)]\<rparr>)"
    "\<forall>x\<in>set pre. view (snd x) = view (fs w)"
    "view m1 = view (fs w)"
    "view m2 = (view (fs w))(cfg_of (source e) \<mapsto> written now ?a')"
    "view m3 = view m2"
    "view m4 = (view m2)(DisabledFile \<mapsto> written now (?dj\<lparr>disabled := Some (AList.delete key dl)\<rparr>))"
    by blast
  have v4: "view m4 = after_enable now key e (view (fs w))"
    using st(4,6) dl by (simp add: after_enable_def Let_def)
  show ?thesis
    unfolding t active_path_cfg
    using st(1,2,3,4,5) v4 by blast
qed

lemma ex_colon_entry:
  "archive_entry ex_now ex_memory Local (Some ''/p'') =
     \<lparr>config = ex_memory, source = Local, projectPath = Some ''/p'',
      metadata = \<lparr>disabledAt = iso ex_now, reason = ''user''\<rparr>\<rparr>"
  by (simp add: archive_entry_def)

lemmas colon_eval = live_view archived_view ex_colon_step1(2) ex_colon_name
  cfg_of_def default_of_def with_servers_def servers_at_def truthy_def
  project_servers_def project_at_def set_project_servers_def emptyObject_def update_conv'
  after_enable_def Let_def defaultDisabled_def

lemma ex_shadow_view:
  "view ex_shadow = (\<lambda>c. None)
     (ClaudeFile \<mapsto> json_file (emptyObject\<lparr>projects :=
         Some [(''/p'', \<lparr>project_mcpServers = Some [(''a:b'', ex_playwright)], project_other = []\<rparr>)]\<rparr>),
      DisabledFile \<mapsto> json_file (defaultDisabled\<lparr>disabled :=
         Some [(''local:/p:a:b'',
                \<lparr>config = ex_memory, source = Local, projectPath = Some ''/p'',
                 metadata = \<lparr>disabledAt = iso ex_now, reason = ''user''\<rparr>\<rparr>)]\<rparr>))"
  by (rule ext) (simp add: view_def ex_shadow_def path_of_def path_defs split: cfgfile.splits)

subsection \<open>Deleting agents and skills\<close>





















subsection \<open>The bulk toggle\<close>

lemma has_registry_view:
  "has_registry m \<longleftrightarrow> disabled (read_view (view m) DisabledFile defaultDisabled) \<noteq> None"
  by (simp add: has_registry_def paths_as_cfg readJsonFile_view)

lemma enableMcp_cases:
  "(\<exists>err. enableMcp now key w = (fail err, w))
   \<or> (\<exists>a descr active' dj dl.
         enableMcp now key w = restore_then_unarchive now (path_of a) descr active' key dj dl w)"
proof -
  let ?dj = "readJsonFile (fs w) MCP_DISABLED_PATH defaultDisabled"
  let ?cj = "readJsonFile (fs w) CLAUDE_JSON_PATH emptyObject"
  let ?mj = "readJsonFile (fs w) MCP_JSON_PATH defaultMcpJson"
  show ?thesis
  proof (cases "disabled ?dj")
    case None
    then have "enableMcp now key w = (fail (Thrown TypeError), w)"
      by (simp add: enableMcp_def Let_def)
    then show ?thesis by blast
  next
    case (Some d)
    note d = Some
    show ?thesis
    proof (cases "map_of d key")
      case None
      then have "enableMcp now key w = (fail (DisabledNotFound key), w)"
        using d by (simp add: enableMcp_def Let_def)
      then show ?thesis by blast
    next
      case (Some e)
      note e = Some
      show ?thesis
      proof (cases "source e")
        case User
        let ?n = "replace_first ''user:'' [] key"
        show ?thesis
        proof (cases "map_of (servers_of ?cj) ?n")
          case None
          then have "enableMcp now key w =
            restore_then_unarchive now (path_of ClaudeFile) (''Before enabling MCP: '' @ ?n)
              (?cj\<lparr>mcpServers := Some (AList.update ?n (config e) (servers_of ?cj))\<rparr>)
              key ?dj d w"
            using d e User by (simp add: enableMcp_def Let_def path_of_def)
          then show ?thesis by blast
        next
          case (Some c)
          then have "enableMcp now key w = (fail (AlreadyExists ?n User), w)"
            using d e User by (simp add: enableMcp_def Let_def)
          then show ?thesis by blast
        qed
      next
        case Local
        let ?n = "last_segment key"
        show ?thesis
        proof (cases "truthy (projectPath e)")
          case False
          then have "enableMcp now key w = (fail InvalidEntrySource, w)"
            using d e Local by (simp add: enableMcp_def Let_def)
          then show ?thesis by blast
        next
          case True
          show ?thesis
          proof (cases "map_of (project_servers ?cj (the (projectPath e))) ?n")
            case None
            then have "enableMcp now key w =
              restore_then_unarchive now (path_of ClaudeFile) (''Before enabling local MCP: '' @ ?n)
                (set_project_servers (the (projectPath e))
                   (AList.update ?n (config e) (project_servers ?cj (the (projectPath e)))) ?cj)
                key ?dj d w"
              using d e Local True by (simp add: enableMcp_def Let_def path_of_def)
            then show ?thesis by blast
          next
            case (Some c)
            then have "enableMcp now key w = (fail (AlreadyExists ?n Local), w)"
              using d e Local True by (simp add: enableMcp_def Let_def)
            then show ?thesis by blast
          qed
        qed
      next
        case McpJson
        let ?n = "replace_first ''mcpjson:'' [] key"
        show ?thesis
        proof (cases "mcpServers ?mj")
          case None
          then have "enableMcp now key w = (fail (Thrown TypeError), w)"
            using d e McpJson by (simp add: enableMcp_def Let_def)
          then show ?thesis by blast
        next
          case (Some sv)
          note sv = Some
          show ?thesis
          proof (cases "map_of sv ?n")
            case None
            then have "enableMcp now key w =
              restore_then_unarchive now (path_of McpFile) (''Before enabling MCP: '' @ ?n)
                (?mj\<lparr>mcpServers := Some (AList.update ?n (config e) sv)\<rparr>)
                key ?dj d w"
              using d e McpJson sv by (simp add: enableMcp_def Let_def path_of_def)
            then show ?thesis by blast
          next
            case (Some c)
            then have "enableMcp now key w = (fail (AlreadyExists ?n McpJson), w)"
              using d e McpJson sv by (simp add: enableMcp_def Let_def)
            then show ?thesis by blast
          qed
        qed
      next
        case Disabled
        then have "enableMcp now key w = (fail InvalidEntrySource, w)"
          using d e by (simp add: enableMcp_def Let_def)
        then show ?thesis by blast
      qed
    qed
  qed
qed

lemma enableMcp_fail_unchanged:
  assumes "\<not> success (fst (enableMcp now key w))"
  shows "snd (enableMcp now key w) = w"
proof -
  from enableMcp_cases[of now key w] show ?thesis
  proof
    assume "\<exists>err. enableMcp now key w = (fail err, w)"
    then show ?thesis by auto
  next
    assume "\<exists>a descr active' dj dl.
         enableMcp now key w = restore_then_unarchive now (path_of a) descr active' key dj dl w"
    then obtain a descr active' dj dl where
      e: "enableMcp now key w = restore_then_unarchive now (path_of a) descr active' key dj dl w"
      by blast
    from restore_then_unarchive_ok[of now a descr active' key dj dl w]
    have "success (fst (enableMcp now key w))" by (auto simp: e ok_def)
    with assms show ?thesis by simp
  qed
qed

lemma enableMcp_success_registry:
  assumes "success (fst (enableMcp now key w))"
  shows "has_registry (fs (snd (enableMcp now key w)))"
proof -
  from enableMcp_cases[of now key w] show ?thesis
  proof
    assume "\<exists>err. enableMcp now key w = (fail err, w)"
    then show ?thesis using assms by (auto simp: fail_def)
  next
    assume "\<exists>a descr active' dj dl.
         enableMcp now key w = restore_then_unarchive now (path_of a) descr active' key dj dl w"
    then obtain a descr active' dj dl where
      e: "enableMcp now key w = restore_then_unarchive now (path_of a) descr active' key dj dl w"
      by blast
    from restore_then_unarchive_ok[of now a descr active' key dj dl w]
    obtain w' where w': "restore_then_unarchive now (path_of a) descr active' key dj dl w = (ok, w')"
      "view (fs w') = (view (fs w))(a \<mapsto> written now active',
            DisabledFile \<mapsto> written now (dj\<lparr>disabled := Some (AList.delete key dl)\<rparr>))"
      by blast
    show ?thesis by (simp add: e w' has_registry_view)
  qed
qed

lemma disableMcp_cases:
  "(\<exists>err. disableMcp now n src pp w = (fail err, w))
   \<or> (\<exists>a descr key entry active'.
         disableMcp now n src pp w = archive_then_remove now (path_of a) descr key entry active' w)"
proof -
  let ?cj = "readJsonFile (fs w) CLAUDE_JSON_PATH emptyObject"
  let ?mj = "readJsonFile (fs w) MCP_JSON_PATH defaultMcpJson"
  consider (u) c where "src = User" "map_of (servers_of ?cj) n = Some c"
    | (l) c where "src = Local" "truthy pp" "map_of (project_servers ?cj (the pp)) n = Some c"
    | (m) c where "src = McpJson" "map_of (servers_of ?mj) n = Some c"
    | (f) "\<exists>err. disableMcp now n src pp w = (fail err, w)"
  proof (cases src)
    case User
    then show ?thesis using that(1,4)
      by (cases "map_of (servers_of ?cj) n") (auto simp: disableMcp_def Let_def)
  next
    case Local
    then show ?thesis using that(2,4)
      by (cases "truthy pp"; cases "map_of (project_servers ?cj (the pp)) n")
         (auto simp: disableMcp_def Let_def)
  next
    case McpJson
    then show ?thesis using that(3,4)
      by (cases "map_of (servers_of ?mj) n") (auto simp: disableMcp_def Let_def)
  next
    case Disabled
    then show ?thesis using that(4) by (auto simp: disableMcp_def Let_def)
  qed
  then show ?thesis
  proof cases
    case u
    then have "disableMcp now n src pp w =
      archive_then_remove now (path_of ClaudeFile) (''Before disabling MCP: '' @ n)
        (''user:'' @ n) (archive_entry now c User None)
        (?cj\<lparr>mcpServers := Some (AList.delete n (servers_of ?cj))\<rparr>) w"
      by (simp add: disableMcp_def Let_def path_of_def)
    then show ?thesis by blast
  next
    case l
    then have "disableMcp now n src pp w =
      archive_then_remove now (path_of ClaudeFile) (''Before disabling local MCP: '' @ n)
        (''local:'' @ the pp @ '':'' @ n) (archive_entry now c Local (Some (the pp)))
        (set_project_servers (the pp) (AList.delete n (project_servers ?cj (the pp))) ?cj) w"
      by (simp add: disableMcp_def Let_def path_of_def)
    then show ?thesis by blast
  next
    case m
    then have "disableMcp now n src pp w =
      archive_then_remove now (path_of McpFile) (''Before disabling MCP: '' @ n)
        (''mcpjson:'' @ n) (archive_entry now c McpJson None)
        (?mj\<lparr>mcpServers := Some (AList.delete n (servers_of ?mj))\<rparr>) w"
      by (simp add: disableMcp_def Let_def path_of_def)
    then show ?thesis by blast
  next
    case f
    then show ?thesis by blast
  qed
qed

lemma disableMcp_fail_view:
  assumes "\<not> success (fst (disableMcp now n src pp w))"
  shows "view (fs (snd (disableMcp now n src pp w))) = view (fs w)"
proof -
  from disableMcp_cases[of now n src pp w] show ?thesis
  proof
    assume "\<exists>err. disableMcp now n src pp w = (fail err, w)"
    then show ?thesis by auto
  next
    assume "\<exists>a descr key entry active'.
         disableMcp now n src pp w = archive_then_remove now (path_of a) descr key entry active' w"
    then obtain a descr key entry active' where
      e: "disableMcp now n src pp w = archive_then_remove now (path_of a) descr key entry active' w"
      by blast
    show ?thesis
    proof (cases "disabled (read_view (view (fs w)) DisabledFile defaultDisabled)")
      case None
      from archive_then_remove_throws[OF None, of now a descr key entry active']
      show ?thesis by (auto simp: e)
    next
      case (Some dl)
      from archive_then_remove_ok[OF Some, of now a descr key entry active']
      have "success (fst (disableMcp now n src pp w))" by (auto simp: e ok_def)
      with assms show ?thesis by simp
    qed
  qed
qed

lemma transition_fail_view:
  assumes "transition now en x w = Some (r1, w')" "\<not> success r1"
  shows "view (fs w') = view (fs w)"
proof (cases en)
  case True
  then obtain key where k: "enableMcp now key w = (r1, w')"
    using assms(1) by (auto simp: transition_def split: option.splits)
  then show ?thesis using enableMcp_fail_unchanged[of now key w] assms(2) by simp
next
  case False
  then have "disableMcp now (name x) User None w = (r1, w')"
    using assms(1) by (simp add: transition_def)
  then show ?thesis using disableMcp_fail_view[of now "name x" User None w] assms(2) by simp
qed

lemma transition_success_registry:
  assumes "transition now True x w = Some (r1, w')" "success r1"
  shows "has_registry (fs w')"
proof -
  obtain key where k: "enableMcp now key w = (r1, w')"
    using assms(1) by (auto simp: transition_def split: option.splits)
  then show ?thesis using enableMcp_success_registry[of now key w] assms(2) by simp
qed

lemma toggle_loop_step:
  assumes "eligible en mcp" "en \<longrightarrow> has_registry (fs w)"
  shows "toggle_loop clock en i (mcp # rest) w =
     (case transition (clock i) en mcp w of
        None \<Rightarrow> toggle_loop clock en (Suc i) rest w
      | Some (r, w') \<Rightarrow>
          if \<not> success r then (fail (FailedToToggle (name mcp) (error r)), w')
          else toggle_loop clock en (Suc i) rest w')"
proof (cases en)
  case True
  then have s: "server_source mcp = Disabled" using assms(1) by (simp add: eligible_def)
  from True assms(2) obtain d where
    d: "disabled (readJsonFile (fs w) MCP_DISABLED_PATH defaultDisabled) = Some d"
    by (auto simp: has_registry_def)
  show ?thesis
    using True s d
    by (simp add: transition_def key_for_def split: option.splits prod.splits)
next
  case False
  then have s: "server_source mcp = User" using assms(1) by (simp add: eligible_def)
  show ?thesis
    using False s by (simp add: transition_def split: prod.splits)
qed

lemma update_values: "snd ` set (AList.update k v al) \<subseteq> insert v (snd ` set al)"
  by (induction al) auto

lemma all_active_update:
  assumes "all_active M" "server_source v \<noteq> Disabled"
  shows "all_active (AList.update k v M)"
  unfolding all_active_def
proof
  fix x assume "x \<in> snd ` set (AList.update k v M)"
  then have "x \<in> insert v (snd ` set M)" using update_values[of k v M] by blast
  then show "server_source x \<noteq> Disabled" using assms by (auto simp: all_active_def)
qed

lemma all_active_add_user: "all_active M \<Longrightarrow> all_active (add_user e M)"
  by (simp add: add_user_def all_active_update active_server_def)

lemma all_active_add_local: "all_active M \<Longrightarrow> all_active (add_local p e M)"
  by (simp add: add_local_def all_active_update active_server_def)

lemma all_active_fold:
  "(\<And>e M. all_active M \<Longrightarrow> all_active (f e M)) \<Longrightarrow> all_active M \<Longrightarrow> all_active (fold f xs M)"
  by (induction xs arbitrary: M) simp_all

lemma all_active_add_project: "all_active M \<Longrightarrow> all_active (add_project pe M)"
  by (simp add: add_project_def all_active_fold all_active_add_local split: option.splits)

lemma all_active_add_mcpjson: "all_active M \<Longrightarrow> all_active (add_mcpjson e M)"
  by (simp add: add_mcpjson_def all_active_update active_server_def)

lemma all_active_mcpMap:
  assumes "\<not> has_registry m"
  shows "all_active (mcpMap m)"
proof -
  have n: "disabled (readJsonFile m MCP_DISABLED_PATH defaultDisabled) = None"
    using assms by (simp add: has_registry_def)
  have "all_active []" by (simp add: all_active_def)
  then show ?thesis
    unfolding mcpMap_def Let_def n
    by (simp add: all_active_fold all_active_add_user all_active_add_project
        all_active_add_mcpjson)
qed

lemma items_need_registry:
  assumes "filter (eligible True) (fst (loadMCPs lc w)) \<noteq> []"
  shows "has_registry (fs w)"
proof (rule ccontr)
  assume "\<not> has_registry (fs w)"
  then have a: "all_active (mcpMap (fs w))" by (rule all_active_mcpMap)
  have "set (fst (loadMCPs lc w)) = snd ` set (mcpMap (fs w))"
    using mset_sort_by[of "compareServers lc" "map snd (mcpMap (fs w))"]
    by (metis fst_conv loadMCPs_def set_map set_mset_mset)
  then have "\<forall>x\<in>set (fst (loadMCPs lc w)). \<not> eligible True x"
    using a by (auto simp: all_active_def eligible_def)
  then have "filter (eligible True) (fst (loadMCPs lc w)) = []"
    by (simp add: filter_empty_conv)
  with assms show False by simp
qed

lemma toggle_loop_outcome:
  assumes "\<forall>x\<in>set items. eligible en x" "en \<longrightarrow> has_registry (fs w)"
    and "toggle_loop clock en i items w = (r, w')"
  shows "if success r then carried clock en i items w = Some w' \<and> r = allDone
         else (\<exists>pre x post wm r1. items = pre @ x # post
                \<and> carried clock en i pre w = Some wm
                \<and> transition (clock (i + length pre)) en x wm = Some (r1, w')
                \<and> \<not> success r1
                \<and> r = fail (FailedToToggle (name x) (error r1)))"
  using assms
proof (induction items arbitrary: i w)
  case Nil
  then show ?case by (auto simp: allDone_def)
next
  case (Cons mcp rest)
  have el: "eligible en mcp" and rest: "\<forall>x\<in>set rest. eligible en x" using Cons.prems(1) by auto
  note step = toggle_loop_step[OF el Cons.prems(2), of clock i rest]
  show ?case
  proof (cases "transition (clock i) en mcp w")
    case None
    then have run: "toggle_loop clock en (Suc i) rest w = (r, w')"
      using Cons.prems(3) step by simp
    note ih = Cons.IH[OF rest Cons.prems(2) run]
    show ?thesis
    proof (cases "success r")
      case True
      then show ?thesis using ih None by simp
    next
      case False
      with ih obtain pre x post wm r1 where p: "rest = pre @ x # post"
        "carried clock en (Suc i) pre w = Some wm"
        "transition (clock (Suc i + length pre)) en x wm = Some (r1, w')"
        "\<not> success r1" "r = fail (FailedToToggle (name x) (error r1))"
        by auto
      have "mcp # rest = (mcp # pre) @ x # post" using p(1) by simp
      moreover have "carried clock en i (mcp # pre) w = Some wm" using p(2) None by simp
      moreover have "transition (clock (i + length (mcp # pre))) en x wm = Some (r1, w')"
        using p(3) by simp
      ultimately show ?thesis using False p(4,5) by (simp only: if_False) blast
    qed
  next
    case (Some rw)
    obtain r0 w0 where rw: "rw = (r0, w0)" by (cases rw)
    show ?thesis
    proof (cases "success r0")
      case False
      then have res: "r = fail (FailedToToggle (name mcp) (error r0))" "w' = w0"
        using Cons.prems(3) step Some rw by simp_all
      have nr: "\<not> success r" using res by (simp add: fail_def)
      have "mcp # rest = [] @ mcp # rest" by simp
      moreover have "carried clock en i [] w = Some w" by simp
      moreover have "transition (clock (i + length ([]::MCPServer list))) en mcp w = Some (r0, w')"
        using Some rw res by simp
      ultimately show ?thesis using nr False res(1) by (simp only: if_False) blast
    next
      case True
      then have run: "toggle_loop clock en (Suc i) rest w0 = (r, w')"
        using Cons.prems(3) step Some rw by simp
      have reg: "en \<longrightarrow> has_registry (fs w0)"
        using transition_success_registry[of "clock i" mcp w r0 w0] Some rw True by auto
      note ih = Cons.IH[OF rest reg run]
      have c: "carried clock en i (mcp # pre) w = carried clock en (Suc i) pre w0" for pre
        using Some rw True by simp
      show ?thesis
      proof (cases "success r")
        case True
        then show ?thesis using ih c by simp
      next
        case False
        with ih obtain pre x post wm r1 where p: "rest = pre @ x # post"
          "carried clock en (Suc i) pre w0 = Some wm"
          "transition (clock (Suc i + length pre)) en x wm = Some (r1, w')"
          "\<not> success r1" "r = fail (FailedToToggle (name x) (error r1))"
          by auto
        have "mcp # rest = (mcp # pre) @ x # post" using p(1) by simp
        moreover have "carried clock en i (mcp # pre) w = Some wm" using p(2) c by simp
        moreover have "transition (clock (i + length (mcp # pre))) en x wm = Some (r1, w')"
          using p(3) by simp
        ultimately show ?thesis using False p(4,5) by (simp only: if_False) blast
      qed
    qed
  qed
qed

lemma ex_skip_reads:
  "readJsonFile ex_skip CLAUDE_JSON_PATH d = d"
  "readJsonFile ex_skip MCP_JSON_PATH d = d"
  "readJsonFile ex_skip MCP_DISABLED_PATH d = defaultDisabled\<lparr>disabled :=
         Some [(''mcpjson:fetch'',
                \<lparr>config = ex_memory, source = McpJson, projectPath = None,
                 metadata = \<lparr>disabledAt = iso ex_now, reason = ''user''\<rparr>\<rparr>)]\<rparr>"
  by (simp_all add: readJsonFile_map_of ex_skip_def json_file_def path_defs)

lemma ex_skip_items:
  "filter (eligible True) (fst (loadMCPs ex_localeCompare (start ex_skip))) =
     [\<lparr>name = ''fetch'', server_config = ex_memory, enabled = False, server_source = Disabled,
       server_projectPath = None, disabledKey = Some ''mcpjson:fetch'',
       server_metadata = Some \<lparr>disabledAt = iso ex_now, reason = ''user''\<rparr>\<rparr>]"
  by (simp add: loadMCPs_def mcpMap_def start_def ex_skip_reads servers_of_def emptyObject_def
      defaultDisabled_def defaultMcpJson_def add_disabled_def last_segment_def
      source_string_def Let_def sort_by_def eligible_def)

lemma ex_skip_run:
  "toggleAllMcps ex_localeCompare (\<lambda>i. ex_now) True (start ex_skip) = (allDone, start ex_skip)"
proof -
  have "toggleAllMcps ex_localeCompare (\<lambda>i. ex_now) True (start ex_skip) =
      toggle_loop (\<lambda>i. ex_now) True 0
        [\<lparr>name = ''fetch'', server_config = ex_memory, enabled = False, server_source = Disabled,
          server_projectPath = None, disabledKey = Some ''mcpjson:fetch'',
          server_metadata = Some \<lparr>disabledAt = iso ex_now, reason = ''user''\<rparr>\<rparr>] (start ex_skip)"
    by (simp only: toggleAllMcps_as_loop ex_skip_items list.simps if_False)
  also have "\<dots> = (allDone, start ex_skip)"
    by (simp add: start_def ex_skip_reads)
  finally show ?thesis .
qed

lemma ex_skip_single:
  "archived ex_skip ''mcpjson:fetch''
     = Some \<lparr>config = ex_memory, source = McpJson, projectPath = None,
             metadata = \<lparr>disabledAt = iso ex_now, reason = ''user''\<rparr>\<rparr>"
  "fst (enableMcp ex_now ''mcpjson:fetch'' (start ex_skip)) = ok"
proof -
  let ?e = "\<lparr>config = ex_memory, source = McpJson, projectPath = None,
             metadata = \<lparr>disabledAt = iso ex_now, reason = ''user''\<rparr>\<rparr>"
  show a: "archived ex_skip ''mcpjson:fetch'' = Some ?e"
    by (simp add: archived_def ex_skip_reads)
  have a': "archived (fs (start ex_skip)) ''mcpjson:fetch'' = Some ?e"
    using a by (simp add: start_def)
  have l: "live (fs (start ex_skip)) (source ?e) (projectPath ?e)
            (restored_name (source ?e) ''mcpjson:fetch'') = None"
    by (simp add: live_def start_def ex_skip_reads servers_of_def defaultMcpJson_def emptyObject_def)
  have r: "restorable (fs (start ex_skip)) ?e"
    by (simp add: restorable_def start_def ex_skip_reads defaultMcpJson_def emptyObject_def)
  from enableMcp_ok[OF a' l r, of ex_now]
  show "fst (enableMcp ex_now ''mcpjson:fetch'' (start ex_skip)) = ok" by auto
qed

subsection \<open>The order of the two writes, with the payload written out\<close>

lemma disableMcp_archives_payload:
  assumes "live m0 src pp n = Some c"
  shows "archive_first src pp n c (archive_key src pp n)
           \<lparr>config = c, source = src, projectPath = (if src = Local then pp else None),
            metadata = \<lparr>disabledAt = iso now, reason = ''user''\<rparr>\<rparr>
           (disableMcp now n src pp (start m0))"
  using disableMcp_archive_first[OF assms, of now] by (simp add: archive_entry_def)

lemma enableMcp_active_first_named:
  assumes "archived m0 (archive_key src pp n) = Some e"
    and "source e = src" "src \<noteq> Disabled" "src = Local \<longrightarrow> CHR '':'' \<notin> set n"
  shows "active_first (archive_key src pp n) e (enableMcp now (archive_key src pp n) (start m0))"
    and "restored_name (source e) (archive_key src pp n) = n"
  using enableMcp_active_first[OF assms(1), of now] restored_name_archive_key[OF assms(4,3), of pp]
    assms(2)
  by simp_all

section \<open>Claims about the file store\<close>

text \<open>
  C7 (as amended). The structured read returns the default both when the file is absent
  and when it is present but does not parse; it returns the parsed object otherwise. It
  never fails: a malformed file is not reported as a parse error.
\<close>

theorem readJsonFile_total:
  "readJsonFile m p d =
     (case map_of m p of
        None \<Rightarrow> d
      | Some f \<Rightarrow> (case content f of Malformed s \<Rightarrow> d | Json j \<Rightarrow> j))"
  by (simp add: readJsonFile_def existsSync_def JSON_parse_def
           split: option.splits content.splits)

text \<open>
  C7, counterexample. The file exists and \<open>JSON.parse\<close> throws on its text, yet the read
  returns the default value instead of failing.
\<close>

theorem readJsonFile_malformed_counterexample:
  "JSON_parse (content \<lparr>content = Malformed ''{oops'', mtime = 0\<rparr>) = Inl SyntaxError
   \<and> existsSync [(CLAUDE_JSON_PATH, \<lparr>content = Malformed ''{oops'', mtime = 0\<rparr>)] CLAUDE_JSON_PATH
   \<and> readJsonFile [(CLAUDE_JSON_PATH, \<lparr>content = Malformed ''{oops'', mtime = 0\<rparr>)]
        CLAUDE_JSON_PATH emptyObject = emptyObject"
  by (simp add: readJsonFile_def existsSync_def JSON_parse_def)

section \<open>Claims about enabling and disabling\<close>

text \<open>
  C3, the code at the failing input. The archive holds the entry of a server \<open>a:b\<close> of
  the project \<open>/p\<close> under the key \<open>local:/p:a:b\<close>, and the project has a live server
  \<open>a:b\<close> again. \<open>enableMcp\<close> looks for a live server named \<open>b\<close>, the text after the last
  colon of the key, finds none and succeeds: it writes files, restores the archived
  payload as \<open>b\<close> beside the live \<open>a:b\<close> and removes the entry from the archive. No
  conflict is reported. When the name that \<open>enableMcp\<close> takes from the key is live, it
  does fail and changes nothing (lemma \<open>enableMcp_already_exists\<close>).
\<close>

theorem enableMcp_misses_conflict:
  "archived ex_shadow ''local:/p:a:b''
     = Some \<lparr>config = ex_memory, source = Local, projectPath = Some ''/p'',
             metadata = \<lparr>disabledAt = iso ex_now, reason = ''user''\<rparr>\<rparr>
   \<and> live ex_shadow Local (Some ''/p'') ''a:b'' = Some ex_playwright
   \<and> live ex_shadow Local (Some ''/p'') ''b'' = None
   \<and> fst (enableMcp ex_later ''local:/p:a:b'' (start ex_shadow)) = ok
   \<and> trace (snd (enableMcp ex_later ''local:/p:a:b'' (start ex_shadow))) \<noteq> []
   \<and> archived (fs (snd (enableMcp ex_later ''local:/p:a:b'' (start ex_shadow)))) ''local:/p:a:b'' = None
   \<and> live (fs (snd (enableMcp ex_later ''local:/p:a:b'' (start ex_shadow)))) Local (Some ''/p'') ''b''
       = Some ex_memory
   \<and> live (fs (snd (enableMcp ex_later ''local:/p:a:b'' (start ex_shadow)))) Local (Some ''/p'') ''a:b''
       = Some ex_playwright"
proof -
  let ?e = "\<lparr>config = ex_memory, source = Local, projectPath = Some ''/p'',
             metadata = \<lparr>disabledAt = iso ex_now, reason = ''user''\<rparr>\<rparr>"
  let ?w = "start ex_shadow"
  have v: "view (fs ?w) = view ex_shadow" by (simp add: start_def)
  note ev = live_view archived_view ex_shadow_view ex_colon_name json_file_def read_view_def
    cfg_of_def default_of_def with_servers_def servers_at_def truthy_def
    project_servers_def project_at_def set_project_servers_def emptyObject_def update_conv'
    after_enable_def Let_def defaultDisabled_def written_def
  have a: "archived (fs ?w) ''local:/p:a:b'' = Some ?e"
    by (simp add: v ev)
  have l1: "live ex_shadow Local (Some ''/p'') ''a:b'' = Some ex_playwright"
    by (simp add: ev)
  have l2: "live ex_shadow Local (Some ''/p'') ''b'' = None"
    by (simp add: ev)
  have l: "live (fs ?w) (source ?e) (projectPath ?e)
             (restored_name (source ?e) ''local:/p:a:b'') = None"
    by (simp add: v ev)
  have r: "restorable (fs ?w) ?e"
    by (simp add: restorable_def truthy_def)
  from enableMcp_steps[OF a l r, of ex_later]
  obtain pre m1 m2 m3 m4 where st:
    "enableMcp ex_later ''local:/p:a:b'' ?w =
        (ok, \<lparr>fs = m4, trace = trace ?w @ pre @
               [(WriteFile (active_path (source ?e) @ ''.tmp''), m1),
                (Rename (active_path (source ?e) @ ''.tmp'') (active_path (source ?e)), m2),
                (WriteFile (MCP_DISABLED_PATH @ ''.tmp''), m3),
                (Rename (MCP_DISABLED_PATH @ ''.tmp'') MCP_DISABLED_PATH, m4)]\<rparr>)"
    "view m4 = after_enable ex_later ''local:/p:a:b'' ?e (view (fs ?w))"
    by blast
  have m4: "archived m4 ''local:/p:a:b'' = None"
    "live m4 Local (Some ''/p'') ''b'' = Some ex_memory"
    "live m4 Local (Some ''/p'') ''a:b'' = Some ex_playwright"
    by (simp_all add: st(2) v ev)
  have a0: "archived ex_shadow ''local:/p:a:b'' = Some ?e"
    using a by (simp add: start_def)
  show ?thesis
    using a0 l1 l2 m4 by (simp add: st(1))
qed

text \<open>
  C1, the code at the failing input. The project \<open>/p\<close> has a server named \<open>a:b\<close>;
  \<open>disableMcp\<close> archives it under \<open>local:/p:a:b\<close>. \<open>enableMcp\<close> of that key succeeds and
  ends with the four writes of its tail: the destination is written and renamed into
  place, then the archive. After the destination is renamed into place (state \<open>m2\<close>) and
  until the archive is renamed (state \<open>m3\<close>) the entry is archived, but the project has
  no server \<open>a:b\<close>: the payload was written under the name \<open>b\<close>, the text after the last
  colon of the key. After the archive is renamed (state \<open>m4\<close>) the server \<open>a:b\<close> is in
  neither store. For every other server the order of the writes keeps it in one of the
  stores (lemmas \<open>disableMcp_archives_payload\<close> and \<open>enableMcp_active_first_named\<close>).
\<close>

theorem enable_colon_name_in_neither_store:
  "live ex_colon Local (Some ''/p'') ''a:b'' = Some ex_memory
   \<and> disableMcp ex_now ''a:b'' Local (Some ''/p'') (start ex_colon) = (ok, ex_colon_disabled)
   \<and> archived (fs ex_colon_disabled) ''local:/p:a:b''
       = Some \<lparr>config = ex_memory, source = Local, projectPath = Some ''/p'',
               metadata = \<lparr>disabledAt = iso ex_now, reason = ''user''\<rparr>\<rparr>
   \<and> (\<exists>pre m1 m2 m3 m4.
        enableMcp ex_later ''local:/p:a:b'' ex_colon_disabled =
          (ok, \<lparr>fs = m4, trace = trace ex_colon_disabled @ pre @
                 [(WriteFile (CLAUDE_JSON_PATH @ ''.tmp''), m1),
                  (Rename (CLAUDE_JSON_PATH @ ''.tmp'') CLAUDE_JSON_PATH, m2),
                  (WriteFile (MCP_DISABLED_PATH @ ''.tmp''), m3),
                  (Rename (MCP_DISABLED_PATH @ ''.tmp'') MCP_DISABLED_PATH, m4)]\<rparr>)
      \<and> archived m2 ''local:/p:a:b''
          = Some \<lparr>config = ex_memory, source = Local, projectPath = Some ''/p'',
                  metadata = \<lparr>disabledAt = iso ex_now, reason = ''user''\<rparr>\<rparr>
      \<and> live m2 Local (Some ''/p'') ''a:b'' = None
      \<and> live m2 Local (Some ''/p'') ''b'' = Some ex_memory
      \<and> archived m3 ''local:/p:a:b''
          = Some \<lparr>config = ex_memory, source = Local, projectPath = Some ''/p'',
                  metadata = \<lparr>disabledAt = iso ex_now, reason = ''user''\<rparr>\<rparr>
      \<and> live m3 Local (Some ''/p'') ''a:b'' = None
      \<and> archived m4 ''local:/p:a:b'' = None
      \<and> live m4 Local (Some ''/p'') ''a:b'' = None)"
proof -
  let ?e = "archive_entry ex_now ex_memory Local (Some ''/p'')"
  have a: "archived (fs ex_colon_disabled) ''local:/p:a:b'' = Some ?e"
    by (simp add: archived_view ex_colon_step1(2) defaultDisabled_def)
  have l: "live (fs ex_colon_disabled) (source ?e) (projectPath ?e)
             (restored_name (source ?e) ''local:/p:a:b'') = None"
    by (simp add: ex_colon_name live_view ex_colon_step1(2) truthy_def project_servers_def
        project_at_def emptyObject_def)
  have r: "restorable (fs ex_colon_disabled) ?e"
    by (simp add: restorable_def truthy_def)
  from enableMcp_steps[OF a l r, of ex_later]
  obtain pre m1 m2 m3 m4 where st:
    "enableMcp ex_later ''local:/p:a:b'' ex_colon_disabled =
        (ok, \<lparr>fs = m4, trace = trace ex_colon_disabled @ pre @
               [(WriteFile (active_path (source ?e) @ ''.tmp''), m1),
                (Rename (active_path (source ?e) @ ''.tmp'') (active_path (source ?e)), m2),
                (WriteFile (MCP_DISABLED_PATH @ ''.tmp''), m3),
                (Rename (MCP_DISABLED_PATH @ ''.tmp'') MCP_DISABLED_PATH, m4)]\<rparr>)"
    "view m2 = (view (fs ex_colon_disabled))(cfg_of (source ?e) \<mapsto> written ex_later
            (with_servers (source ?e) (projectPath ?e)
               (AList.update (restored_name (source ?e) ''local:/p:a:b'') (config ?e)
                  (servers_at (source ?e) (projectPath ?e)
                     (read_view (view (fs ex_colon_disabled)) (cfg_of (source ?e))
                        (default_of (cfg_of (source ?e))))))
               (read_view (view (fs ex_colon_disabled)) (cfg_of (source ?e))
                  (default_of (cfg_of (source ?e))))))"
    "view m3 = view m2"
    "view m4 = after_enable ex_later ''local:/p:a:b'' ?e (view (fs ex_colon_disabled))"
    by blast
  have ap: "active_path (source ?e) = CLAUDE_JSON_PATH" by (simp add: active_path_def)
  have m2: "archived m2 ''local:/p:a:b'' = Some ?e"
    "live m2 Local (Some ''/p'') ''a:b'' = None"
    "live m2 Local (Some ''/p'') ''b'' = Some ex_memory"
    by (simp_all add: st(2) colon_eval)
  have m3: "archived m3 ''local:/p:a:b'' = Some ?e"
    "live m3 Local (Some ''/p'') ''a:b'' = None"
    by (simp_all add: st(3) st(2) colon_eval)
  have m4: "archived m4 ''local:/p:a:b'' = None"
    "live m4 Local (Some ''/p'') ''a:b'' = None"
    by (simp_all add: st(4) colon_eval)
  have st1: "enableMcp ex_later ''local:/p:a:b'' ex_colon_disabled =
        (ok, \<lparr>fs = m4, trace = trace ex_colon_disabled @ pre @
               [(WriteFile (CLAUDE_JSON_PATH @ ''.tmp''), m1),
                (Rename (CLAUDE_JSON_PATH @ ''.tmp'') CLAUDE_JSON_PATH, m2),
                (WriteFile (MCP_DISABLED_PATH @ ''.tmp''), m3),
                (Rename (MCP_DISABLED_PATH @ ''.tmp'') MCP_DISABLED_PATH, m4)]\<rparr>)"
    using st(1) unfolding ap .
  show ?thesis
    using ex_colon_live ex_colon_step1(1) a[unfolded ex_colon_entry] st1
      m2[unfolded ex_colon_entry] m3[unfolded ex_colon_entry] m4
    by blast
qed

text \<open>
  C10. Loading the merged view returns the world as it was (no file is written, no event
  is emitted), so a second load returns the same list.
\<close>

theorem loadMCPs_read_only:
  "snd (loadMCPs localeCompare w) = w
   \<and> fst (loadMCPs localeCompare (snd (loadMCPs localeCompare w))) = fst (loadMCPs localeCompare w)"
  by (simp add: loadMCPs_def)

text \<open>
  C2, the code at the failing input. The project \<open>/p\<close> has a server named \<open>a:b\<close>.
  \<open>disableMcp\<close> archives it under \<open>local:/p:a:b\<close>; \<open>enableMcp\<close> takes the text after
  the last colon of that key as the name and restores the payload as \<open>b\<close>. Both calls
  succeed, and afterwards the project has a server \<open>b\<close> and no server \<open>a:b\<close>.
\<close>

theorem round_trip_colon_name:
  "live ex_colon Local (Some ''/p'') ''a:b'' = Some ex_memory
   \<and> disableMcp ex_now ''a:b'' Local (Some ''/p'') (start ex_colon) = (ok, ex_colon_disabled)
   \<and> archive_key Local (Some ''/p'') ''a:b'' = ''local:/p:a:b''
   \<and> enableMcp ex_later ''local:/p:a:b'' ex_colon_disabled = (ok, ex_colon_restored)
   \<and> live (fs ex_colon_restored) Local (Some ''/p'') ''a:b'' = None
   \<and> live (fs ex_colon_restored) Local (Some ''/p'') ''b'' = Some ex_memory"
proof -
  let ?e = "archive_entry ex_now ex_memory Local (Some ''/p'')"
  have a: "archived (fs ex_colon_disabled) ''local:/p:a:b'' = Some ?e"
    by (simp add: archived_view ex_colon_step1(2) defaultDisabled_def)
  have l: "live (fs ex_colon_disabled) (source ?e) (projectPath ?e)
             (restored_name (source ?e) ''local:/p:a:b'') = None"
    by (simp add: ex_colon_name live_view ex_colon_step1(2) truthy_def project_servers_def
        project_at_def emptyObject_def)
  have r: "restorable (fs ex_colon_disabled) ?e"
    by (simp add: restorable_def truthy_def)
  from enableMcp_ok[OF a l r, of ex_later]
  obtain w2 where w2: "enableMcp ex_later ''local:/p:a:b'' ex_colon_disabled = (ok, w2)"
    "view (fs w2) = after_enable ex_later ''local:/p:a:b'' ?e (view (fs ex_colon_disabled))"
    by blast
  have e2: "enableMcp ex_later ''local:/p:a:b'' ex_colon_disabled = (ok, ex_colon_restored)"
    using w2(1) by (simp add: ex_colon_restored_def)
  have v2: "view (fs ex_colon_restored) =
      after_enable ex_later ''local:/p:a:b'' ?e (view (fs ex_colon_disabled))"
    using w2 by (simp add: ex_colon_restored_def)
  have g1: "live (fs ex_colon_restored) Local (Some ''/p'') ''a:b'' = None"
    by (simp add: live_view v2 after_enable_def Let_def ex_colon_step1(2) ex_colon_name
        cfg_of_def default_of_def with_servers_def servers_at_def truthy_def
        project_servers_def project_at_def set_project_servers_def emptyObject_def update_conv')
  have g2: "live (fs ex_colon_restored) Local (Some ''/p'') ''b'' = Some ex_memory"
    by (simp add: live_view v2 after_enable_def Let_def ex_colon_step1(2) ex_colon_name
        cfg_of_def default_of_def with_servers_def servers_at_def truthy_def
        project_servers_def project_at_def set_project_servers_def emptyObject_def update_conv')
  have k: "archive_key Local (Some ''/p'') ''a:b'' = ''local:/p:a:b''"
    by (simp add: archive_key_def)
  show ?thesis using ex_colon_live ex_colon_step1(1) e2 g1 g2 k by simp
qed

section \<open>Claims about the merged view\<close>

text \<open>
  C4 (as amended). When a name is both a user-level server of \<open>~/.claude.json\<close> and a
  server of \<open>mcp.json\<close>, the merged view holds exactly one entry of that name from these
  two sources: the user-level one, with the user-level payload. The \<open>mcp.json\<close>
  occurrence is suppressed by its name alone, whether or not the payloads are equal.
\<close>

theorem loadMCPs_dedup_by_name:
  assumes u: "live m User None n = Some c"
    and j: "live m McpJson None n = Some c'"
    and d: "distinct (map fst (servers_of (readJsonFile m CLAUDE_JSON_PATH emptyObject)))"
  shows "filter (\<lambda>s. name s = n \<and> (server_source s = User \<or> server_source s = McpJson))
           (fst (loadMCPs localeCompare (start m)))
         = [active_server n c User None]"
proof -
  let ?S = "servers_of (readJsonFile m CLAUDE_JSON_PATH emptyObject)"
  let ?Q = "\<lambda>s. name s = n \<and> (server_source s = User \<or> server_source s = McpJson)"
  let ?u = "active_server n c User None"
  have inv: "map_inv (mcpMap m)" by (rule map_inv_mcpMap)
  have c: "map_of ?S n = Some c" using u by (simp add: live_def)
  have nl: "\<not> prefix ''local:'' (''user:'' @ n)" "\<not> prefix ''disabled:'' (''user:'' @ n)"
    "\<not> prefix ''local:'' (''mcpjson:'' @ n)" "\<not> prefix ''disabled:'' (''mcpjson:'' @ n)"
    by simp_all
  let ?m1 = "fold add_user ?S []"
  let ?m2 = "fold add_project
      (case projects (readJsonFile m CLAUDE_JSON_PATH emptyObject) of None \<Rightarrow> [] | Some ps \<Rightarrow> ps) ?m1"
  let ?m3 = "fold add_mcpjson (servers_of (readJsonFile m MCP_JSON_PATH defaultMcpJson)) ?m2"
  have M: "mcpMap m = fold add_disabled
      (case disabled (readJsonFile m MCP_DISABLED_PATH defaultDisabled) of None \<Rightarrow> [] | Some d \<Rightarrow> d) ?m3"
    by (simp only: mcpMap_def Let_def)
  have U1: "map_of ?m1 (''user:'' @ n) = Some ?u"
    by (simp only: fold_add_user_lookup[OF d] c option.case)
  have U2: "map_of ?m2 (''user:'' @ n) = Some ?u"
    by (simp only: fold_add_project_keep[OF nl(1)] U1)
  have U3: "map_of ?m3 (''user:'' @ n) = Some ?u"
    by (simp only: fold_add_mcpjson_user U2)
  have U: "map_of (mcpMap m) (''user:'' @ n) = Some ?u"
    by (simp only: M fold_add_disabled_keep[OF nl(2)] U3)
  have J1: "map_of ?m1 (''mcpjson:'' @ n) = None"
    by (simp only: fold_add_user_mcpjson map_of.simps)
  have J2: "map_of ?m2 (''mcpjson:'' @ n) = None"
    by (simp only: fold_add_project_keep[OF nl(3)] J1)
  have "map_of ?m2 (''user:'' @ n) \<noteq> None" using U2 by simp
  from fold_add_mcpjson_blocked[OF this] J2
  have J3: "map_of ?m3 (''mcpjson:'' @ n) = None"
    by (simp only:)
  have J: "map_of (mcpMap m) (''mcpjson:'' @ n) = None"
    by (simp only: M fold_add_disabled_keep[OF nl(4)] J3)
  have uniq: "\<And>k' v'. map_of (mcpMap m) k' = Some v' \<Longrightarrow> ?Q v' \<Longrightarrow> k' = ''user:'' @ n"
  proof -
    fix k' v' assume a: "map_of (mcpMap m) k' = Some v'" "?Q v'"
    then have ko: "key_ok k' v'" using inv by (simp add: map_inv_def)
    show "k' = ''user:'' @ n"
    proof (cases "server_source v' = User")
      case True
      then show ?thesis using ko a(2) by (simp add: key_ok_def)
    next
      case False
      then have "server_source v' = McpJson" using a(2) by simp
      then have "k' = ''mcpjson:'' @ n" using ko a(2) by (simp add: key_ok_def)
      then show ?thesis using a(1) J by simp
    qed
  qed
  have "filter ?Q (map snd (mcpMap m)) = [?u]"
    by (rule filter_unique_value[OF _ U _ uniq])
       (use inv in \<open>simp_all add: map_inv_def active_server_def\<close>)
  then show ?thesis
    by (simp add: loadMCPs_def filter_sort_by_single)
qed

theorem loadMCPs_dedup_by_name_witness:
  "live ex_dup User None ''memory'' = Some ex_memory
   \<and> live ex_dup McpJson None ''memory'' = Some ex_playwright
   \<and> distinct (map fst (servers_of (readJsonFile ex_dup CLAUDE_JSON_PATH emptyObject)))
   \<and> filter (\<lambda>s. name s = ''memory'' \<and> (server_source s = User \<or> server_source s = McpJson))
           (fst (loadMCPs (\<lambda>a b. 0) (start ex_dup)))
         = [active_server ''memory'' ex_memory User None]"
proof -
  have u: "live ex_dup User None ''memory'' = Some ex_memory"
    by (simp add: live_def ex_dup_reads servers_of_def)
  have j: "live ex_dup McpJson None ''memory'' = Some ex_playwright"
    by (simp add: live_def ex_dup_reads servers_of_def)
  have d: "distinct (map fst (servers_of (readJsonFile ex_dup CLAUDE_JSON_PATH emptyObject)))"
    by (simp add: ex_dup_reads servers_of_def)
  from loadMCPs_dedup_by_name[OF u j d, of "\<lambda>a b. 0"] u j d show ?thesis by simp
qed

text \<open>
  C4, counterexample. The same name with two different payloads in the two sources
  yields one entry, not two.
\<close>

theorem loadMCPs_differing_payload_counterexample:
  "live ex_dup User None ''memory'' = Some ex_memory
   \<and> live ex_dup McpJson None ''memory'' = Some ex_playwright
   \<and> ex_memory \<noteq> ex_playwright
   \<and> fst (loadMCPs (\<lambda>a b. 0) (start ex_dup)) = [active_server ''memory'' ex_memory User None]"
proof -
  have "mcpMap ex_dup = [(''user:memory'', active_server ''memory'' ex_memory User None)]"
    by (simp add: mcpMap_def ex_dup_reads servers_of_def emptyObject_def defaultDisabled_def
        add_user_def add_mcpjson_def)
  then have "fst (loadMCPs (\<lambda>a b. 0) (start ex_dup)) = [active_server ''memory'' ex_memory User None]"
    by (simp add: loadMCPs_def sort_by_def)
  moreover have "live ex_dup User None ''memory'' = Some ex_memory"
    by (simp add: live_def ex_dup_reads servers_of_def)
  moreover have "live ex_dup McpJson None ''memory'' = Some ex_playwright"
    by (simp add: live_def ex_dup_reads servers_of_def)
  moreover have "ex_memory \<noteq> ex_playwright"
    by (simp add: ex_memory_def ex_playwright_def)
  ultimately show ?thesis by simp
qed

section \<open>Claims about backups\<close>




text \<open>
  C8, the code at the failing input. \<open>restoreBackup\<close> on a well-formed backup of
  \<open>~/.claude.json\<close> succeeds with three events: the fresh snapshot of the live file, the
  sidecar of that snapshot, and a direct \<open>copyFileSync\<close> of the backup onto the live
  path. The live file is overwritten in place: no temporary file is written and nothing
  is renamed, unlike \<open>writeJsonFileAtomic\<close>.
\<close>

theorem restoreBackup_raw_overwrite:
  "fst (restoreBackup ex_later ex_backup_path (start ex_backup)) = ok
   \<and> map fst (trace (snd (restoreBackup ex_later ex_backup_path (start ex_backup)))) =
       [CopyFile CLAUDE_JSON_PATH (backup_path ex_later CLAUDE_JSON_PATH),
        WriteFile (backup_path ex_later CLAUDE_JSON_PATH @ ''.meta.json''),
        CopyFile ex_backup_path CLAUDE_JSON_PATH]
   \<and> map_of (fs (snd (restoreBackup ex_later ex_backup_path (start ex_backup)))) CLAUDE_JSON_PATH
       = Some \<lparr>content = Json (emptyObject\<lparr>mcpServers := Some [(''memory'', ex_memory)]\<rparr>),
               mtime = fs_mtime ex_later\<rparr>"
proof -
  have len: "length (fs (start ex_backup)) + 2 \<le> MAX_BACKUPS"
    by (simp add: ex_backup_def MAX_BACKUPS_def)
  have cb: "\<And>d. snd (createBackup ex_later CLAUDE_JSON_PATH d (start ex_backup)) =
      writeFileSync ex_later (backup_path ex_later CLAUDE_JSON_PATH @ ''.meta.json'')
        (Json (emptyObject\<lparr>originalPath := Some CLAUDE_JSON_PATH, timestamp := Some (iso ex_later),
                 description := Some (backup_description d)\<rparr>))
        (copyFileSync ex_later CLAUDE_JSON_PATH (backup_path ex_later CLAUDE_JSON_PATH) (start ex_backup))"
    using createBackup_small[OF _ len, of CLAUDE_JSON_PATH _ ex_later] ex_backup_lookups(1)
    by simp
  have ne1: "backup_path ex_later CLAUDE_JSON_PATH @ ''.meta.json'' \<noteq> CLAUDE_JSON_PATH"
    "backup_path ex_later CLAUDE_JSON_PATH \<noteq> CLAUDE_JSON_PATH"
    by (simp_all add: backup_path_def path_defs)
  have ne2: "backup_path ex_later CLAUDE_JSON_PATH @ ''.meta.json'' \<noteq> ex_backup_path"
    "backup_path ex_later CLAUDE_JSON_PATH \<noteq> ex_backup_path"
    by (simp_all add: backup_path_def ex_backup_path_def path_defs stamp_def ex_later_def ex_now_def)
  show ?thesis
    unfolding restoreBackup_def Let_def
    by (simp add: ex_backup_lookups json_file_def JSON_parse_def ex_backup_meta_def cb
        existsSync_def writeFileSync_def copyFileSync_def emit_def update_conv' ne1 ne2
        ne1[symmetric] ne2[symmetric])
qed

section \<open>Claims about the bulk toggle\<close>

text \<open>
  C5 (as amended). \<open>toggleAllMcps\<close> takes the eligible items in the order of the merged
  view and makes the single-item call for each on the world the previous one left:
  \<open>disableMcp\<close> of the user-level server, or \<open>enableMcp\<close> of the first archive key that
  starts with \<open>user:\<close> and ends with the item's name; an item with no such key is passed
  over. When it succeeds, every item was passed over or its call succeeded. When it
  fails, the items split into those before the failing item, whose calls succeeded (or
  which were passed over), the failing item and the rest: the result is the single
  error that names the failing item and carries the error of its call, the world is
  the one that call returned, with the configuration files as the earlier items left
  them, and no call is made for the rest.
\<close>

theorem bulk_toggle_stops_at_first_failure:
  assumes "toggleAllMcps lc clock en w = (r, w')"
  shows "if success r
         then carried clock en 0 (filter (eligible en) (fst (loadMCPs lc w))) w = Some w'
              \<and> error r = None
              \<and> requiresRestart r = Some (filter (eligible en) (fst (loadMCPs lc w)) \<noteq> [])
         else (\<exists>pre x post wm r1.
                 filter (eligible en) (fst (loadMCPs lc w)) = pre @ x # post
               \<and> carried clock en 0 pre w = Some wm
               \<and> transition (clock (length pre)) en x wm = Some (r1, w')
               \<and> \<not> success r1
               \<and> r = fail (FailedToToggle (name x) (error r1))
               \<and> view (fs w') = view (fs wm))"
proof (cases "filter (eligible en) (fst (loadMCPs lc w)) = []")
  case True
  then have "(r, w') = (\<lparr>success = True, error = None, requiresRestart = Some False\<rparr>, w)"
    using assms by (simp add: toggleAllMcps_as_loop)
  then show ?thesis using True by auto
next
  case False
  let ?items = "filter (eligible en) (fst (loadMCPs lc w))"
  have run: "toggle_loop clock en 0 ?items w = (r, w')"
    using assms False by (simp add: toggleAllMcps_as_loop)
  have el: "\<forall>x\<in>set ?items. eligible en x" by simp
  have reg: "en \<longrightarrow> has_registry (fs w)" using False items_need_registry[of lc w] by auto
  note out = toggle_loop_outcome[OF el reg run]
  show ?thesis
  proof (cases "success r")
    case True
    then show ?thesis using out False by (simp add: allDone_def)
  next
    case nr: False
    with out obtain pre x post wm r1 where p: "?items = pre @ x # post"
      "carried clock en 0 pre w = Some wm"
      "transition (clock (0 + length pre)) en x wm = Some (r1, w')"
      "\<not> success r1" "r = fail (FailedToToggle (name x) (error r1))"
      by auto
    have v: "view (fs w') = view (fs wm)"
      using transition_fail_view[OF p(3) p(4)] .
    have t: "transition (clock (length pre)) en x wm = Some (r1, w')" using p(3) by simp
    show ?thesis using nr p(1,2,4,5) t v by (simp only: if_False) blast
  qed
qed

theorem bulk_toggle_stops_at_first_failure_witness:
  "toggleAllMcps ex_localeCompare (\<lambda>i. ex_now) True (start ex_bulk) =
     (fail (FailedToToggle ''b'' (Some (AlreadyExists ''b'' User))), ex_bulk_after)
   \<and> (\<exists>pre x post wm r1.
        filter (eligible True) (fst (loadMCPs ex_localeCompare (start ex_bulk))) = pre @ x # post
      \<and> carried (\<lambda>i. ex_now) True 0 pre (start ex_bulk) = Some wm
      \<and> transition ex_now True x wm = Some (r1, ex_bulk_after)
      \<and> \<not> success r1
      \<and> name x = ''b''
      \<and> error r1 = Some (AlreadyExists ''b'' User)
      \<and> view (fs ex_bulk_after) = view (fs wm))"
proof -
  have f: "\<not> success (fail (FailedToToggle ''b'' (Some (AlreadyExists ''b'' User))))"
    by (simp add: fail_def)
  from bulk_toggle_stops_at_first_failure[OF ex_bulk_run] f
  obtain pre x post wm r1 where p:
    "filter (eligible True) (fst (loadMCPs ex_localeCompare (start ex_bulk))) = pre @ x # post"
    "carried (\<lambda>i. ex_now) True 0 pre (start ex_bulk) = Some wm"
    "transition ex_now True x wm = Some (r1, ex_bulk_after)"
    "\<not> success r1"
    "fail (FailedToToggle ''b'' (Some (AlreadyExists ''b'' User)))
       = fail (FailedToToggle (name x) (error r1))"
    "view (fs ex_bulk_after) = view (fs wm)"
    by (simp only: if_False) blast
  from p(5) have "name x = ''b''" "error r1 = Some (AlreadyExists ''b'' User)"
    by (auto simp: fail_def)
  then show ?thesis using ex_bulk_run p(1,2,3,4,6) by blast
qed

text \<open>
  C5, counterexample. Three archived user-level servers \<open>a\<close>, \<open>b\<close>, \<open>c\<close>, with a live \<open>b\<close>
  in the way. Enabling all enables \<open>a\<close>, fails on \<open>b\<close> and stops: the result carries one
  error naming \<open>b\<close> and no list of the items that succeeded, and \<open>c\<close> is left archived
  although enabling it on its own succeeds. And with one archived \<open>mcp.json\<close> server
  \<open>fetch\<close>, enabling all reports success and changes nothing: the item is eligible, but
  no key that starts with \<open>user:\<close> is found for it, although enabling its key on its own
  succeeds.
\<close>

theorem bulk_toggle_counterexample:
  "toggleAllMcps ex_localeCompare (\<lambda>i. ex_now) True (start ex_bulk) =
     (\<lparr>success = False, error = Some (FailedToToggle ''b'' (Some (AlreadyExists ''b'' User))),
       requiresRestart = None\<rparr>, ex_bulk_after)
   \<and> live ex_bulk User None ''a'' = None
   \<and> live (fs ex_bulk_after) User None ''a'' = Some ex_memory
   \<and> archived (fs ex_bulk_after) ''user:c'' = Some ex_entry
   \<and> live (fs ex_bulk_after) User None ''c'' = None
   \<and> fst (enableMcp ex_now ''user:c'' ex_bulk_after) = ok
   \<and> toggleAllMcps ex_localeCompare (\<lambda>i. ex_now) True (start ex_skip)
       = (\<lparr>success = True, error = None, requiresRestart = Some True\<rparr>, start ex_skip)
   \<and> archived ex_skip ''mcpjson:fetch''
       = Some \<lparr>config = ex_memory, source = McpJson, projectPath = None,
               metadata = \<lparr>disabledAt = iso ex_now, reason = ''user''\<rparr>\<rparr>
   \<and> fst (enableMcp ex_now ''mcpjson:fetch'' (start ex_skip)) = ok"
proof -
  have l: "live (fs ex_bulk_after) (source ex_entry) (projectPath ex_entry)
            (restored_name (source ex_entry) ''user:c'') = None"
    by (simp add: ex_entry_fields restored_name_def ex_bulk_after_facts)
  have r: "restorable (fs ex_bulk_after) ex_entry"
    by (simp add: restorable_def ex_entry_fields)
  from enableMcp_ok[OF ex_bulk_after_facts(2) l r, of ex_now]
  have "fst (enableMcp ex_now ''user:c'' ex_bulk_after) = ok" by auto
  moreover have "live ex_bulk User None ''a'' = None"
    by (simp add: live_view ex_bulk_view servers_of_def)
  ultimately show ?thesis
    using ex_bulk_run ex_bulk_after_facts ex_skip_run ex_skip_single
    by (simp add: fail_def allDone_def)
qed

section \<open>Claims about the retention of backups\<close>

text \<open>
  C9 (as amended). Let the file \<open>p\<close> exist outside the backups directory, with no
  backup of its base name in the directory yet, and let \<open>MAX_BACKUPS + 5\<close> snapshots of
  it be taken at clock readings whose timestamps are pairwise distinct, the file system
  giving each copy a modification time later than that of the copy before it. Then the
  backups directory holds exactly \<open>MAX_BACKUPS\<close> copies and \<open>MAX_BACKUPS\<close> sidecars for
  that base name: those of the last \<open>MAX_BACKUPS\<close> calls, in the order of the calls, each
  copy with the content of \<open>p\<close>.
\<close>

theorem retention_keeps_newest:
  assumes "map_of m0 p = Some f"
    and "\<not> prefix (BACKUPS_DIR @ ''/'') p"
    and "filter (prefix (basename p @ ''.'')) (readdirSync m0 BACKUPS_DIR) = []"
    and "sorted_wrt (<) (map fs_mtime rs)"
    and "distinct (map stamp rs)"
    and "\<forall>r\<in>set rs. iso_ok r"
    and "length rs = MAX_BACKUPS + 5"
  shows "backups_of (fs (snapshots rs p d (start m0))) (basename p)
             = map (\<lambda>r. backup_name r p) (drop 5 rs)
       \<and> sidecars_of (fs (snapshots rs p d (start m0))) (basename p)
             = map (\<lambda>r. backup_name r p @ ''.meta.json'') (drop 5 rs)
       \<and> length (backups_of (fs (snapshots rs p d (start m0))) (basename p)) = MAX_BACKUPS
       \<and> length (sidecars_of (fs (snapshots rs p d (start m0))) (basename p)) = MAX_BACKUPS
       \<and> (\<forall>r\<in>set (drop 5 rs).
             map_of (fs (snapshots rs p d (start m0))) (backup_path r p)
               = Some \<lparr>content = content f, mtime = fs_mtime r\<rparr>)"
proof -
  note keep = snapshots_keep_newest[OF assms(1-6), of d, unfolded drop_newest[OF assms(7)]]
  have len: "length (drop 5 rs) = MAX_BACKUPS" using assms(7) by simp
  show ?thesis using keep len by simp
qed

theorem retention_keeps_newest_witness:
  "backups_of (fs (snapshots ex_ticks CLAUDE_JSON_PATH None (start ex_active))) (basename CLAUDE_JSON_PATH)
     = map (\<lambda>r. backup_name r CLAUDE_JSON_PATH) (drop 5 ex_ticks)
   \<and> length (backups_of (fs (snapshots ex_ticks CLAUDE_JSON_PATH None (start ex_active)))
        (basename CLAUDE_JSON_PATH)) = 10
   \<and> length (sidecars_of (fs (snapshots ex_ticks CLAUDE_JSON_PATH None (start ex_active)))
        (basename CLAUDE_JSON_PATH)) = 10
   \<and> length ex_ticks = 15"
  using retention_keeps_newest[OF ex_active_file claude_json_outside ex_active_no_backups
      ex_ticks_sorted ex_ticks_distinct ex_ticks_iso_ok ex_ticks_length, of None]
    ex_ticks_length
  by (simp add: MAX_BACKUPS_def)

text \<open>
  C9, counterexample. The name of a backup is the base name and the timestamp of the
  call, to the millisecond: \<open>MAX_BACKUPS + 5\<close> snapshots of \<open>~/.claude.json\<close> taken at one
  and the same clock reading all write the same copy and the same sidecar, and one
  backup and one sidecar remain, not \<open>MAX_BACKUPS\<close>. And the copies are pruned by the
  modification time that the file system gave them: when the \<open>MAX_BACKUPS + 5\<close> snapshots
  are taken at distinct, increasing clock readings but their copies all get the same
  modification time, the comparator of the sort returns \<open>0\<close>, the copies stay in the order
  of the directory, and each new copy beyond the first \<open>MAX_BACKUPS\<close> is removed at once:
  the first \<open>MAX_BACKUPS\<close> copies remain, and the copy of the last call is not among them.
\<close>

theorem retention_counterexample:
  "backups_of ex_same_millisecond (basename CLAUDE_JSON_PATH) = [backup_name ex_now CLAUDE_JSON_PATH]
   \<and> sidecars_of ex_same_millisecond (basename CLAUDE_JSON_PATH)
       = [backup_name ex_now CLAUDE_JSON_PATH @ ''.meta.json'']
   \<and> length (backups_of ex_same_millisecond (basename CLAUDE_JSON_PATH)) \<noteq> MAX_BACKUPS
   \<and> length ex_tied = MAX_BACKUPS + 5
   \<and> distinct (map iso ex_tied)
   \<and> sorted_wrt (<) (map millis ex_tied)
   \<and> backups_of ex_tied_mtime (basename CLAUDE_JSON_PATH)
       = map (\<lambda>r. backup_name r CLAUDE_JSON_PATH) (take MAX_BACKUPS ex_tied)
   \<and> backup_name (last ex_tied) CLAUDE_JSON_PATH
        \<notin> set (backups_of ex_tied_mtime (basename CLAUDE_JSON_PATH))"
proof -
  have ok: "\<forall>r\<in>set (take MAX_BACKUPS ex_tied). iso_ok r"
    using ex_tied_facts(1) set_take_subset[of MAX_BACKUPS ex_tied] by blast
  have b: "backups_of ex_tied_mtime (basename CLAUDE_JSON_PATH)
     = map (\<lambda>r. backup_name r CLAUDE_JSON_PATH) (take MAX_BACKUPS ex_tied)"
    using ex_tied_mtime_retained ok by (rule retained_backups_of)
  have "stamp (last ex_tied) \<notin> stamp ` set (take MAX_BACKUPS ex_tied)"
    by (simp add: ex_tied_def ex_ticks_def ex_tick_def stamp_def MAX_BACKUPS_def)
  then have "backup_name (last ex_tied) CLAUDE_JSON_PATH
        \<notin> (\<lambda>r. backup_name r CLAUDE_JSON_PATH) ` set (take MAX_BACKUPS ex_tied)"
    by (auto simp: backup_name_inj)
  then have t: "backup_name (last ex_tied) CLAUDE_JSON_PATH
        \<notin> set (backups_of ex_tied_mtime (basename CLAUDE_JSON_PATH))"
    by (simp add: b)
  have len: "length ex_tied = MAX_BACKUPS + 5"
    by (simp add: ex_tied_def ex_ticks_length)
  show ?thesis
    using retained_backups_of[OF ex_same_millisecond_retained]
      retained_sidecars_of[OF ex_same_millisecond_retained] ex_now_iso_ok
      b t len ex_tied_facts(4,5)
    by (simp add: MAX_BACKUPS_def)
qed

end
